theory Spec2Isabelle
  imports Complex_Main "HOL-Library.Word" "HOL-Library.Sublist" "HOL-Library.Log_Nat"
begin

section \<open>The byte source and the clock\<close>

text \<open>
  \<^verbatim>\<open>Stream\<close> (src/hostapi/Stream.h) is an abstract class: \<^verbatim>\<open>read()\<close>, \<^verbatim>\<open>peek()\<close> and
  \<^verbatim>\<open>available()\<close> are pure virtual, and \<^verbatim>\<open>millis()\<close> comes from Common.h, which is not
  among the sources. The state below holds the two fields of the class, \<^verbatim>\<open>_timeout\<close> and
  \<^verbatim>\<open>_startMillis\<close>, together with what the collaborators need: the bytes waiting in the
  source and the current reading of the millisecond clock. \<^verbatim>\<open>unsigned long\<close> is a word
  of any width \<open>'w\<close>; a byte is an 8-bit word; \<^verbatim>\<open>int\<close> results that carry a byte or the
  sentinel \<open>-1\<close> are HOL integers.
\<close>

type_synonym byte = "8 word"

record 't stream =
  input :: "byte list"
  now :: "'t"
  startMillis :: "'t"
  timeout :: "'t"

text \<open>
  Modelled from the spec: the source capability of sections 3 and 6, \<^verbatim>\<open>read() -> next byte
  value, or "none" if currently empty (consumes)\<close> and \<^verbatim>\<open>peek() -> next byte value, or "none",
  without consuming\<close>, over an in-memory queue of bytes. "None" is the \<open>-1\<close> the callers test
  with \<^verbatim>\<open>c >= 0\<close>.
\<close>

definition read :: "'w::len word stream \<Rightarrow> int \<times> 'w word stream" where
  "read s = (case input s of [] \<Rightarrow> (- 1, s) | b # bs \<Rightarrow> (uint b, s\<lparr>input := bs\<rparr>))"

definition peek :: "'w::len word stream \<Rightarrow> int" where
  "peek s = (case input s of [] \<Rightarrow> - 1 | b # bs \<Rightarrow> uint b)"

text \<open>
  Modelled from the spec: \<^verbatim>\<open>millis()\<close>, the wall clock of section 3 (a timestamp in
  milliseconds). It is a counter of the width of \<^verbatim>\<open>unsigned long\<close> that wraps around, and
  every reading of it costs one millisecond, so that a polling loop makes progress towards its
  deadline.
\<close>

definition millis :: "'w::len word stream \<Rightarrow> 'w word \<times> 'w word stream" where
  "millis s = (now s, s\<lparr>now := now s + 1\<rparr>)"

section \<open>Timed reads (Stream.h, lines 102 to 121)\<close>

text \<open>
  \<^verbatim>\<open>do { c = read(); if (c >= 0) return c; } while (millis() - _startMillis < _timeout);
  return -1;\<close> The subtraction and the comparison are those of unsigned words.
\<close>

function timedRead_loop :: "'w::len word stream \<Rightarrow> int \<times> 'w word stream" where
  "timedRead_loop s =
     (let (c, s1) = read s in
      if c \<ge> 0 then (c, s1)
      else let (m, s2) = millis s1 in
           if m - startMillis s2 < timeout s2 then timedRead_loop s2 else (- 1, s2))"
  by pat_completeness auto

lemma word_succ_elapsed:
  fixes n st t :: "'w::len word"
  assumes "n - st < t"
  shows "unat t - unat (n + 1 - st) < unat t - unat (n - st)"
proof -
  have "n - st \<noteq> - 1" using assms by (metis word_order.extremum_strict)
  then have "1 + (n - st) \<noteq> 0" by (metis add_eq_0_iff)
  then have "unat (1 + (n - st)) = Suc (unat (n - st))"
    by (rule unatSuc)
  then have "unat (n - st + 1) = unat (n - st) + 1"
    by (simp add: add.commute)
  moreover have "n + 1 - st = n - st + 1" by simp
  ultimately have e: "unat (n + 1 - st) = unat (n - st) + 1" by (simp only:)
  have "unat (n - st) < unat t" using assms by (simp add: word_less_nat_alt)
  with e show ?thesis by arith
qed

termination timedRead_loop
  apply (relation "measure (\<lambda>s. unat (timeout s) - unat (now s - startMillis s))")
   apply simp
proof -
  fix s :: "'w::len word stream" and x :: "int \<times> 'w word stream" and x1 :: int and x2 xa x1a x2a
  assume a: "x = read s" "(x1, x2) = x" "\<not> 0 \<le> x1" "xa = millis x2" "(x1a, x2a) = xa"
    "x1a - startMillis x2a < timeout x2a"
  show "(x2a, s) \<in> measure (\<lambda>s. unat (timeout s) - unat (now s - startMillis s))"
    using a word_succ_elapsed[of "now s" "startMillis s" "timeout s"]
    by (auto simp: read_def millis_def split: list.splits)
qed

declare timedRead_loop.simps [simp del]

definition timedRead :: "'w::len word stream \<Rightarrow> int \<times> 'w word stream" where
  "timedRead s = (let (m, s0) = millis s in timedRead_loop (s0\<lparr>startMillis := m\<rparr>))"

function timedPeek_loop :: "'w::len word stream \<Rightarrow> int \<times> 'w word stream" where
  "timedPeek_loop s =
     (let c = peek s in
      if c \<ge> 0 then (c, s)
      else let (m, s2) = millis s in
           if m - startMillis s2 < timeout s2 then timedPeek_loop s2 else (- 1, s2))"
  by pat_completeness auto

termination timedPeek_loop
  apply (relation "measure (\<lambda>s. unat (timeout s) - unat (now s - startMillis s))")
   apply simp
proof -
  fix s :: "'w::len word stream" and x :: int and xa x1 x2
  assume a: "x = peek s" "\<not> 0 \<le> x" "xa = millis s" "(x1, x2) = xa"
    "x1 - startMillis x2 < timeout x2"
  show "(x2, s) \<in> measure (\<lambda>s. unat (timeout s) - unat (now s - startMillis s))"
    using a word_succ_elapsed[of "now s" "startMillis s" "timeout s"]
    by (auto simp: millis_def)
qed

declare timedPeek_loop.simps [simp del]

definition timedPeek :: "'w::len word stream \<Rightarrow> int \<times> 'w word stream" where
  "timedPeek s = (let (m, s0) = millis s in timedPeek_loop (s0\<lparr>startMillis := m\<rparr>))"

section \<open>What a timed read returns and what it leaves\<close>

lemma timedRead_loop_Cons:
  "input s = b # bs \<Longrightarrow> timedRead_loop s = (uint b, s\<lparr>input := bs\<rparr>)"
  by (subst timedRead_loop.simps) (simp add: read_def)

lemma timedRead_loop_Nil:
  "input s = [] \<Longrightarrow> fst (timedRead_loop s) = - 1 \<and> input (snd (timedRead_loop s)) = []"
proof (induction s rule: timedRead_loop.induct)
  case (1 s)
  show ?case
  proof (cases "now s - startMillis s < timeout s")
    case True
    have "timedRead_loop s = timedRead_loop (s\<lparr>now := now s + 1\<rparr>)"
      using True "1.prems" by (subst timedRead_loop.simps) (simp add: read_def millis_def)
    moreover have "fst (timedRead_loop (s\<lparr>now := now s + 1\<rparr>)) = - 1
        \<and> input (snd (timedRead_loop (s\<lparr>now := now s + 1\<rparr>))) = []"
      using True "1.prems"
      by (intro "1.IH"[of "(- 1, s)" "- 1" s "(now s, s\<lparr>now := now s + 1\<rparr>)" "now s"])
         (simp_all add: read_def millis_def)
    ultimately show ?thesis by simp
  next
    case False
    then show ?thesis
      using "1.prems" by (subst (1 2) timedRead_loop.simps) (simp add: read_def millis_def)
  qed
qed

lemma fst_timedRead:
  "fst (timedRead s) = (case input s of [] \<Rightarrow> - 1 | b # bs \<Rightarrow> uint b)"
  by (cases "input s")
     (simp_all add: timedRead_def millis_def timedRead_loop_Nil timedRead_loop_Cons)

lemma input_timedRead: "input (snd (timedRead s)) = tl (input s)"
  by (cases "input s")
     (simp_all add: timedRead_def millis_def timedRead_loop_Nil timedRead_loop_Cons)

lemma timedPeek_loop_Cons: "input s = b # bs \<Longrightarrow> timedPeek_loop s = (uint b, s)"
  by (subst timedPeek_loop.simps) (simp add: peek_def)

lemma timedPeek_loop_Nil:
  "input s = [] \<Longrightarrow> fst (timedPeek_loop s) = - 1 \<and> input (snd (timedPeek_loop s)) = []"
proof (induction s rule: timedPeek_loop.induct)
  case (1 s)
  show ?case
  proof (cases "now s - startMillis s < timeout s")
    case True
    have "timedPeek_loop s = timedPeek_loop (s\<lparr>now := now s + 1\<rparr>)"
      using True "1.prems" by (subst timedPeek_loop.simps) (simp add: peek_def millis_def)
    moreover have "fst (timedPeek_loop (s\<lparr>now := now s + 1\<rparr>)) = - 1
        \<and> input (snd (timedPeek_loop (s\<lparr>now := now s + 1\<rparr>))) = []"
      using True "1.prems"
      by (intro "1.IH"[of "- 1" "(now s, s\<lparr>now := now s + 1\<rparr>)" "now s"])
         (simp_all add: peek_def millis_def)
    ultimately show ?thesis by simp
  next
    case False
    then show ?thesis
      using "1.prems" by (subst (1 2) timedPeek_loop.simps) (simp add: peek_def millis_def)
  qed
qed

lemma fst_timedPeek:
  "fst (timedPeek s) = (case input s of [] \<Rightarrow> - 1 | b # bs \<Rightarrow> uint b)"
  by (cases "input s")
     (simp_all add: timedPeek_def millis_def timedPeek_loop_Nil timedPeek_loop_Cons)

lemma input_timedPeek: "input (snd (timedPeek s)) = input s"
  by (cases "input s")
     (simp_all add: timedPeek_def millis_def timedPeek_loop_Nil timedPeek_loop_Cons)

section \<open>Bounded reads (Stream.h, lines 289 to 298)\<close>

text \<open>
  \<^verbatim>\<open>readBytesUntil(terminator, buffer, length)\<close>: the caller's array is the list \<open>buffer\<close>,
  \<^verbatim>\<open>*buffer++ = (char)c\<close> stores at position \<open>index\<close>, and \<^verbatim>\<open>(char)c\<close> is the low byte
  of \<open>c\<close>. The parameter \<^verbatim>\<open>length\<close> is \<open>maxlen\<close> here. The result is the count, the array
  and the stream.
\<close>

function readBytesUntil_loop ::
  "byte \<Rightarrow> nat \<Rightarrow> nat \<Rightarrow> byte list \<Rightarrow> 'w::len word stream \<Rightarrow> nat \<times> byte list \<times> 'w word stream"
where
  "readBytesUntil_loop terminator maxlen index buffer s =
     (if index < maxlen then
        (let (c, s1) = timedRead s in
         if c < 0 \<or> (word_of_int c :: byte) = terminator then (index, buffer, s1)
         else readBytesUntil_loop terminator maxlen (index + 1)
                (buffer[index := word_of_int c]) s1)
      else (index, buffer, s))"
  by pat_completeness auto

termination readBytesUntil_loop
  by (relation "measure (\<lambda>(terminator, maxlen, index, buffer, s). maxlen - index)") auto

declare readBytesUntil_loop.simps [simp del]

definition readBytesUntil ::
  "byte \<Rightarrow> byte list \<Rightarrow> nat \<Rightarrow> 'w::len word stream \<Rightarrow> nat \<times> byte list \<times> 'w word stream"
where
  "readBytesUntil terminator buffer maxlen s =
     readBytesUntil_loop terminator maxlen 0 buffer s"

section \<open>Numeric parsing (Stream.h, lines 46 to 52, 124 to 147 and 201 to 265)\<close>

text \<open>
  Character codes: \<^verbatim>\<open>'-'\<close> is 45, \<^verbatim>\<open>'.'\<close> is 46, \<^verbatim>\<open>'0'\<close> to \<^verbatim>\<open>'9'\<close> are 48 to 57,
  space, tab, carriage return and line feed are 32, 9, 13 and 10, and \<^verbatim>\<open>NO_IGNORE_CHAR\<close> is
  \<^verbatim>\<open>'\x01'\<close>.
\<close>

datatype LookaheadMode = SKIP_ALL | SKIP_NONE | SKIP_WHITESPACE

definition NO_IGNORE_CHAR :: byte where
  "NO_IGNORE_CHAR = 1"

text \<open>
  \<^verbatim>\<open>peekNextDigit\<close>, lines 124 to 147. In the \<^verbatim>\<open>switch\<close>, \<^verbatim>\<open>SKIP_WHITESPACE\<close> falls
  through to \<^verbatim>\<open>SKIP_ALL\<close> for a white-space byte; \<^verbatim>\<open>this->read()\<close> then discards the byte
  and the loop goes on.
\<close>

function peekNextDigit ::
  "LookaheadMode \<Rightarrow> bool \<Rightarrow> 'w::len word stream \<Rightarrow> int \<times> 'w word stream"
where
  "peekNextDigit lookahead detectDecimal s =
     (let (c, s1) = timedPeek s in
      if c < 0 \<or> c = 45 \<or> (c \<ge> 48 \<and> c \<le> 57) \<or> (detectDecimal \<and> c = 46) then (c, s1)
      else case lookahead of
             SKIP_NONE \<Rightarrow> (- 1, s1)
           | SKIP_WHITESPACE \<Rightarrow>
               (if c = 32 \<or> c = 9 \<or> c = 13 \<or> c = 10
                then peekNextDigit lookahead detectDecimal (snd (read s1))
                else (- 1, s1))
           | SKIP_ALL \<Rightarrow> peekNextDigit lookahead detectDecimal (snd (read s1)))"
  by pat_completeness auto

lemma timedPeek_consumable:
  assumes "(c, s1) = timedPeek s" "\<not> c < 0"
  shows "length (input (snd (read s1))) < length (input s)"
proof -
  have "fst (timedPeek s) = c" "snd (timedPeek s) = s1" using assms(1) by (metis fst_conv, metis snd_conv)
  then have "input s \<noteq> []" "input s1 = input s"
    using assms(2) fst_timedPeek[of s] input_timedPeek[of s] by (auto split: list.splits)
  then show ?thesis by (cases "input s") (simp_all add: read_def)
qed

termination peekNextDigit
proof (relation "measure (\<lambda>(lookahead, detectDecimal, s). length (input s))", goal_cases)
  case 1
  show ?case by simp
next
  case (2 lookahead detectDecimal s x c s1)
  then show ?case using timedPeek_consumable[of c s1 s] by simp
next
  case (3 lookahead detectDecimal s x c s1)
  then show ?case using timedPeek_consumable[of c s1 s] by simp
qed

declare peekNextDigit.simps [simp del]

text \<open>
  \<^verbatim>\<open>parseInt\<close>, lines 201 to 225. \<^verbatim>\<open>long\<close> is a word of any width \<open>'l\<close>, and
  \<^verbatim>\<open>value * 10 + c - '0'\<close> and \<^verbatim>\<open>-value\<close> wrap around. \<^verbatim>\<open>(char)c\<close> is the low byte of
  \<open>c\<close>, so the sentinel \<open>-1\<close> becomes the byte 255. \<open>parseInt_accum\<close> is the \<^verbatim>\<open>if\<close> chain
  of lines 212 to 217 on the pair \<open>(isNegative, value)\<close>.
\<close>

definition parseInt_accum :: "byte \<Rightarrow> int \<Rightarrow> bool \<times> 'l::len word \<Rightarrow> bool \<times> 'l word" where
  "parseInt_accum ignore c acc =
     (let (isNegative, value) = acc in
      if (word_of_int c :: byte) = ignore then (isNegative, value)
      else if c = 45 then (True, value)
      else if c \<ge> 48 \<and> c \<le> 57 then (isNegative, value * 10 + word_of_int c - 48)
      else (isNegative, value))"

text \<open>
  The \<^verbatim>\<open>do ... while\<close> loop of lines 211 to 220. With \<open>ignore = 255\<close> and no byte left the
  test \<^verbatim>\<open>(char)c == ignore\<close> holds for the sentinel and the loop never ends: the result
  is then \<open>None\<close>.
\<close>

partial_function (option) parseInt_loop ::
  "byte \<Rightarrow> int \<Rightarrow> bool \<times> 'l::len word \<Rightarrow> 'w::len word stream
   \<Rightarrow> ((bool \<times> 'l word) \<times> 'w word stream) option"
where
  "parseInt_loop ignore c acc s =
     (let acc1 = parseInt_accum ignore c acc;
          s1 = snd (read s);
          (c1, s2) = timedPeek s1
      in if (c1 \<ge> 48 \<and> c1 \<le> 57) \<or> (word_of_int c1 :: byte) = ignore
         then parseInt_loop ignore c1 acc1 s2
         else Some (acc1, s2))"

declare parseInt_loop.simps [code]

definition parseInt ::
  "LookaheadMode \<Rightarrow> byte \<Rightarrow> 'w::len word stream \<Rightarrow> ('l::len word \<times> 'w word stream) option"
where
  "parseInt lookahead ignore s =
     (let (c, s1) = peekNextDigit lookahead False s in
      if c < 0 then Some (0, s1)
      else case parseInt_loop ignore c (False, 0) s1 of
             None \<Rightarrow> None
           | Some ((isNegative, value), s2) \<Rightarrow>
               Some (if isNegative then - value else value, s2))"


text \<open>
  \<^verbatim>\<open>parseFloat\<close>, lines 229 to 265. The arithmetic of \<^verbatim>\<open>double\<close> and \<^verbatim>\<open>float\<close> is a
  parameter: the value of a constant or of an integer converted to \<^verbatim>\<open>double\<close>
  (\<open>dlit\<close>), the sum, difference, product and negation of doubles, the conversion to
  \<^verbatim>\<open>float\<close> of the result (\<open>narrow\<close>) and the \<^verbatim>\<open>float\<close> of \<^verbatim>\<open>return 0\<close> (\<open>flit\<close>).
  The IEEE 754 arithmetic of the program is the instance \<open>ieee754\<close> of the next section.
\<close>

record ('d, 'f) fpu =
  dlit :: "rat \<Rightarrow> 'd"
  dadd :: "'d \<Rightarrow> 'd \<Rightarrow> 'd"
  dsub :: "'d \<Rightarrow> 'd \<Rightarrow> 'd"
  dmul :: "'d \<Rightarrow> 'd \<Rightarrow> 'd"
  dneg :: "'d \<Rightarrow> 'd"
  narrow :: "'d \<Rightarrow> 'f"
  flit :: "rat \<Rightarrow> 'f"

text \<open>
  The \<^verbatim>\<open>if\<close> chain of lines 242 to 256 on \<open>(isNegative, isFraction, value, fraction)\<close>:
  \<^verbatim>\<open>fraction *= 0.1; value = value + fraction * (c - '0')\<close> after the decimal point,
  \<^verbatim>\<open>value = value * 10 + c - '0'\<close> before it.
\<close>

definition parseFloat_accum ::
  "('d, 'f) fpu \<Rightarrow> byte \<Rightarrow> int \<Rightarrow> bool \<times> bool \<times> 'd \<times> 'd \<Rightarrow> bool \<times> bool \<times> 'd \<times> 'd"
where
  "parseFloat_accum F ignore c acc =
     (let (isNegative, isFraction, value, fraction) = acc in
      if (word_of_int c :: byte) = ignore then (isNegative, isFraction, value, fraction)
      else if c = 45 then (True, isFraction, value, fraction)
      else if c = 46 then (isNegative, True, value, fraction)
      else if c \<ge> 48 \<and> c \<le> 57 then
        (if isFraction then
           (let fraction1 = dmul F fraction (dlit F (1 / 10)) in
            (isNegative, isFraction,
             dadd F value (dmul F fraction1 (dlit F (of_int (c - 48)))), fraction1))
         else
           (isNegative, isFraction,
            dsub F (dadd F (dmul F value (dlit F 10)) (dlit F (of_int c))) (dlit F 48),
            fraction))
      else (isNegative, isFraction, value, fraction))"

text \<open>
  The \<^verbatim>\<open>do ... while\<close> loop of lines 241 to 259; \<open>fst (snd acc1)\<close> is \<^verbatim>\<open>isFraction\<close>.
\<close>

partial_function (option) parseFloat_loop ::
  "('d, 'f) fpu \<Rightarrow> byte \<Rightarrow> int \<Rightarrow> bool \<times> bool \<times> 'd \<times> 'd \<Rightarrow> 'w::len word stream
   \<Rightarrow> ((bool \<times> bool \<times> 'd \<times> 'd) \<times> 'w word stream) option"
where
  "parseFloat_loop F ignore c acc s =
     (let acc1 = parseFloat_accum F ignore c acc;
          s1 = snd (read s);
          (c1, s2) = timedPeek s1
      in if (c1 \<ge> 48 \<and> c1 \<le> 57) \<or> (c1 = 46 \<and> \<not> fst (snd acc1))
            \<or> (word_of_int c1 :: byte) = ignore
         then parseFloat_loop F ignore c1 acc1 s2
         else Some (acc1, s2))"

declare parseFloat_loop.simps [code]

definition parseFloat ::
  "('d, 'f) fpu \<Rightarrow> LookaheadMode \<Rightarrow> byte \<Rightarrow> 'w::len word stream
   \<Rightarrow> ('f \<times> 'w word stream) option"
where
  "parseFloat F lookahead ignore s =
     (let (c, s1) = peekNextDigit lookahead True s in
      if c < 0 then Some (flit F 0, s1)
      else case parseFloat_loop F ignore c (False, False, dlit F 0, dlit F 1) s1 of
             None \<Rightarrow> None
           | Some ((isNegative, isFraction, value, fraction), s2) \<Rightarrow>
               Some (narrow F (if isNegative then dneg F value else value), s2))"

section \<open>The arithmetic of \<^verbatim>\<open>double\<close> and \<^verbatim>\<open>float\<close>\<close>

text \<open>
  The arithmetic of the program: \<^verbatim>\<open>double\<close> is the binary64 format of IEEE 754 and
  \<^verbatim>\<open>float\<close> the binary32 format, and every operation gives the exact result rounded to
  the nearest value of the format, a tie going to the value with an even significand (the
  default rounding); an expression is evaluated operation by operation in \<^verbatim>\<open>double\<close>, with
  no wider intermediate format and no fused multiply-add. A value is \<open>Finite q\<close> for a rational \<open>q\<close> of the format (\<open>Finite 0\<close> is
  the positive zero), the negative zero, an infinity (\<open>Infinity True\<close> is the negative
  one) or a NaN.
\<close>

datatype ieee = Finite rat | NegZero | Infinity bool | NaN

text \<open>
  \<open>pow2 k\<close> is \<open>2\<close> to the power \<open>k\<close>, \<open>ilog2 q\<close> the exponent \<open>k\<close> with
  \<open>2^k \<le> q < 2^(k+1)\<close> of a positive \<open>q\<close>, and \<open>round_even m\<close> the integer nearest to \<open>m\<close>,
  the even one of the two when \<open>m\<close> is half way.
\<close>

definition pow2 :: "int \<Rightarrow> rat" where
  "pow2 k = (if 0 \<le> k then 2 ^ nat k else 1 / 2 ^ nat (- k))"

definition ilog2 :: "rat \<Rightarrow> int" where
  "ilog2 q = (let (a, b) = quotient_of q; k = bitlen a - bitlen b
              in if pow2 k \<le> q then k else k - 1)"

definition round_even :: "rat \<Rightarrow> int" where
  "round_even m =
     (let n = \<lfloor>m\<rfloor>; r = m - of_int n
      in if r < 1 / 2 then n else if 1 / 2 < r then n + 1 else if even n then n else n + 1)"

text \<open>
  Rounding to a format with \<open>p\<close> bits of significand, least exponent of a unit in the
  last place \<open>qmin\<close> (the subnormal numbers) and overflow threshold \<open>2^emax\<close>: the number
  is rounded to a multiple of the unit in the last place of its binade, overflows to an
  infinity when the rounded magnitude reaches \<open>2^emax\<close>, and keeps its sign when it
  underflows to zero. binary64 has 53 bits, subnormal unit \<open>2^-1074\<close> and overflows at
  \<open>2^1024\<close>; binary32 has 24 bits, subnormal unit \<open>2^-149\<close> and overflows at \<open>2^128\<close>.
\<close>

definition round_to :: "nat \<Rightarrow> int \<Rightarrow> int \<Rightarrow> rat \<Rightarrow> ieee" where
  "round_to p qmin emax q =
     (if q = 0 then Finite 0
      else let e = max (ilog2 \<bar>q\<bar> - (int p - 1)) qmin;
               r = of_int (round_even (\<bar>q\<bar> / pow2 e)) * pow2 e
           in if pow2 emax \<le> r then Infinity (q < 0)
              else if q < 0 then (if r = 0 then NegZero else Finite (- r))
              else Finite r)"

definition binary64 :: "rat \<Rightarrow> ieee" where
  "binary64 = round_to 53 (- 1074) 1024"

definition binary32 :: "rat \<Rightarrow> ieee" where
  "binary32 = round_to 24 (- 149) 128"

text \<open>
  Negation, sum and product of two \<^verbatim>\<open>double\<close> values and the conversion of a \<^verbatim>\<open>double\<close>
  to \<^verbatim>\<open>float\<close>, with the special values of IEEE 754: an exact sum that is zero is the
  positive zero unless both terms are the negative zero, the sign of a product is the
  exclusive or of the signs, the difference of equal infinities and the product of a
  zero and an infinity are NaN.
\<close>

fun ieee_neg :: "ieee \<Rightarrow> ieee" where
  "ieee_neg (Finite q) = (if q = 0 then NegZero else Finite (- q))"
| "ieee_neg NegZero = Finite 0"
| "ieee_neg (Infinity b) = Infinity (\<not> b)"
| "ieee_neg NaN = NaN"

fun ieee_add :: "ieee \<Rightarrow> ieee \<Rightarrow> ieee" where
  "ieee_add NaN y = NaN"
| "ieee_add x NaN = NaN"
| "ieee_add (Infinity a) (Infinity b) = (if a = b then Infinity a else NaN)"
| "ieee_add (Infinity a) y = Infinity a"
| "ieee_add x (Infinity b) = Infinity b"
| "ieee_add NegZero y = y"
| "ieee_add x NegZero = x"
| "ieee_add (Finite a) (Finite b) = binary64 (a + b)"

fun is_zero :: "ieee \<Rightarrow> bool" where
  "is_zero (Finite q) = (q = 0)"
| "is_zero NegZero = True"
| "is_zero (Infinity b) = False"
| "is_zero NaN = False"

fun sign_bit :: "ieee \<Rightarrow> bool" where
  "sign_bit (Finite q) = (q < 0)"
| "sign_bit NegZero = True"
| "sign_bit (Infinity b) = b"
| "sign_bit NaN = False"

fun ieee_mul :: "ieee \<Rightarrow> ieee \<Rightarrow> ieee" where
  "ieee_mul NaN y = NaN"
| "ieee_mul x NaN = NaN"
| "ieee_mul (Infinity a) y = (if is_zero y then NaN else Infinity (a \<noteq> sign_bit y))"
| "ieee_mul x (Infinity b) = (if is_zero x then NaN else Infinity (sign_bit x \<noteq> b))"
| "ieee_mul (Finite a) (Finite b) =
     (if a = 0 \<or> b = 0 then (if (a < 0) \<noteq> (b < 0) then NegZero else Finite 0)
      else binary64 (a * b))"
| "ieee_mul x y = (if sign_bit x \<noteq> sign_bit y then NegZero else Finite 0)"

fun ieee_narrow :: "ieee \<Rightarrow> ieee" where
  "ieee_narrow (Finite q) = binary32 q"
| "ieee_narrow NegZero = NegZero"
| "ieee_narrow (Infinity b) = Infinity b"
| "ieee_narrow NaN = NaN"

text \<open>
  The instance of the arithmetic parameter of \<^verbatim>\<open>parseFloat\<close>: a constant or an integer
  converted to \<^verbatim>\<open>double\<close> is rounded to binary64 (the integers of the program are
  exact), \<^verbatim>\<open>a - b\<close> is \<^verbatim>\<open>a + (-b)\<close>, the returned \<^verbatim>\<open>double\<close> is rounded to binary32, and
  the \<^verbatim>\<open>0\<close> of \<^verbatim>\<open>return 0\<close> is the \<^verbatim>\<open>float\<close> zero.
\<close>

definition ieee754 :: "(ieee, ieee) fpu" where
  "ieee754 = \<lparr>dlit = binary64, dadd = ieee_add, dsub = (\<lambda>a b. ieee_add a (ieee_neg b)),
              dmul = ieee_mul, dneg = ieee_neg, narrow = ieee_narrow, flit = binary32\<rparr>"

section \<open>The multi-pattern search (Stream.h, lines 77 to 81 and 336 to 399)\<close>

text \<open>
  \<^verbatim>\<open>struct MultiTarget { const char* str; size_t len; size_t index; }\<close>: the string searched
  for, its length and the cursor of the search. \<open>str\<close> is the bytes behind the pointer; the
  search only reads \<^verbatim>\<open>str[i]\<close> for \<open>i < len\<close>, which is inside the string for the targets the
  callers build. Cursors and lengths are natural numbers: \<^verbatim>\<open>int origIndex\<close> and
  \<^verbatim>\<open>int diff\<close> hold the same numbers as the \<^verbatim>\<open>size_t\<close> cursor for any target shorter than
  \<open>2^31\<close> bytes.
\<close>

record MultiTarget =
  str :: "byte list"
  len :: nat
  index :: nat

text \<open>
  Lines 339 to 342: the first loop returns the position of the first target of length zero.
  The counter \<open>k\<close> is \<^verbatim>\<open>t - targets\<close>.
\<close>

fun zero_length :: "MultiTarget list \<Rightarrow> nat \<Rightarrow> nat option" where
  "zero_length [] k = None"
| "zero_length (t # ts) k = (if len t \<le> 0 then Some k else zero_length ts (k + 1))"

text \<open>
  Lines 381 to 384: \<^verbatim>\<open>for (i = 0; i < t->index; ++i) if (t->str[i] != t->str[i + diff]) break;\<close>
  The result is the value of \<open>i\<close> after the loop.
\<close>

function prefix_scan :: "byte list \<Rightarrow> nat \<Rightarrow> nat \<Rightarrow> nat \<Rightarrow> nat" where
  "prefix_scan s diff idx i =
     (if i < idx then (if s ! i \<noteq> s ! (i + diff) then i else prefix_scan s diff idx (i + 1))
      else i)"
  by pat_completeness auto

termination prefix_scan
  by (relation "measure (\<lambda>(s, diff, idx, i). idx - i)") auto

declare prefix_scan.simps [simp del]

text \<open>
  Lines 366 to 394, the \<^verbatim>\<open>do ... while (t->index)\<close> loop. \<open>idx0\<close> is \<^verbatim>\<open>t->index\<close> on entry
  of an iteration, \<open>idx\<close> after \<^verbatim>\<open>--t->index\<close>; \<^verbatim>\<open>continue\<close> jumps to the test
  \<^verbatim>\<open>while (t->index)\<close>, \<^verbatim>\<open>break\<close> leaves with \<^verbatim>\<open>t->index++\<close> done. The result is the final
  \<^verbatim>\<open>t->index\<close>. The loop is entered with \<open>idx0 > 0\<close> only (line 362).
\<close>

function walk_back :: "byte \<Rightarrow> byte list \<Rightarrow> nat \<Rightarrow> nat \<Rightarrow> nat" where
  "walk_back c s origIndex idx0 =
     (let idx = idx0 - 1 in
      if c \<noteq> s ! idx then (if idx \<noteq> 0 then walk_back c s origIndex idx else idx)
      else if idx = 0 then idx + 1
      else let diff = origIndex - idx; i = prefix_scan s diff idx 0 in
           if i = idx then idx + 1
           else if idx \<noteq> 0 then walk_back c s origIndex idx else idx)"
  by pat_completeness auto

termination walk_back
  by (relation "measure (\<lambda>(c, s, origIndex, idx0). idx0)") auto

declare walk_back.simps [simp del]

text \<open>
  Lines 350 to 394, the body of the \<^verbatim>\<open>for\<close> loop for one target and the byte \<open>c\<close> (that is
  \<^verbatim>\<open>(char)c\<close>): \<open>True\<close> when the target is complete (\<^verbatim>\<open>return t - targets\<close>), with the
  target as the body leaves it.
\<close>

definition match_target :: "byte \<Rightarrow> MultiTarget \<Rightarrow> bool \<times> MultiTarget" where
  "match_target c t =
     (if c = str t ! index t then
        (let t1 = t\<lparr>index := index t + 1\<rparr> in
         if index t1 = len t1 then (True, t1) else (False, t1))
      else if index t = 0 then (False, t)
      else (False, t\<lparr>index := walk_back c (str t) (index t) (index t)\<rparr>))"

text \<open>
  Line 349, the \<^verbatim>\<open>for\<close> loop over the targets, in their order: the position of the first
  target the byte completes, or the targets with their cursors moved.
\<close>

fun scan_targets :: "byte \<Rightarrow> MultiTarget list \<Rightarrow> nat \<Rightarrow> nat option \<times> MultiTarget list" where
  "scan_targets c [] k = (None, [])"
| "scan_targets c (t # ts) k =
     (case match_target c t of
        (True, t1) \<Rightarrow> (Some k, t1 # ts)
      | (False, t1) \<Rightarrow> (let (r, ts1) = scan_targets c ts (k + 1) in (r, t1 # ts1)))"

text \<open>
  Lines 344 to 396, the \<^verbatim>\<open>while (1)\<close> loop: it ends when \<^verbatim>\<open>timedRead\<close> returns no
  byte (\<open>-1\<close>) or a target is complete. Every round consumes a byte, which is why the
  recursion ends.
\<close>

function findMulti_loop :: "MultiTarget list \<Rightarrow> 'w::len word stream \<Rightarrow> int \<times> 'w word stream" where
  "findMulti_loop targets s =
     (let (c, s1) = timedRead s in
      if c < 0 then (- 1, s1)
      else case scan_targets (word_of_int c) targets 0 of
             (Some k, ts1) \<Rightarrow> (int k, s1)
           | (None, ts1) \<Rightarrow> findMulti_loop ts1 s1)"
  by pat_completeness auto

termination findMulti_loop
proof (relation "measure (\<lambda>(targets, s). length (input s))", simp)
  fix targets :: "MultiTarget list" and s :: "'w::len word stream" and x x1 x2 x2a
  assume a: "x = timedRead s" "(x1, x2) = x" "\<not> x1 < 0"
  have "fst (timedRead s) = x1" "snd (timedRead s) = x2" using a by (auto simp: fst_def snd_def split: prod.splits)
  then have "input s \<noteq> []" "input x2 = tl (input s)"
    using a(3) fst_timedRead[of s] input_timedRead[of s] by (auto split: list.splits)
  then show "((x2a, x2), targets, s) \<in> measure (\<lambda>(targets, s). length (input s))"
    by (cases "input s") auto
qed

declare findMulti_loop.simps [simp del]

definition findMulti :: "MultiTarget list \<Rightarrow> 'w::len word stream \<Rightarrow> int \<times> 'w word stream" where
  "findMulti targets s =
     (case zero_length targets 0 of
        Some k \<Rightarrow> (int k, s)
      | None \<Rightarrow> findMulti_loop targets s)"

text \<open>
  A fresh target, as \<^verbatim>\<open>findUntil\<close> builds it: \<^verbatim>\<open>{ target, targetLen, 0 }\<close> with the
  length of the pattern.
\<close>

definition target :: "byte list \<Rightarrow> MultiTarget" where
  "target p = \<lparr>str = p, len = length p, index = 0\<rparr>"




text \<open>
  Lines 163 to 191. \<^verbatim>\<open>findUntil(target, targetLen, terminator, termLen)\<close>; a \<^verbatim>\<open>NULL\<close>
  terminator is \<open>None\<close>. \<^verbatim>\<open>find(target)\<close> is \<open>find_target\<close> here (\<open>find\<close> is a function of
  the list library); its argument is the bytes of the C string before the terminating zero,
  so that \<^verbatim>\<open>strlen(target)\<close> is their number.
\<close>

definition findUntil ::
  "byte list \<Rightarrow> nat \<Rightarrow> byte list option \<Rightarrow> nat \<Rightarrow> 'w::len word stream \<Rightarrow> bool \<times> 'w word stream"
where
  "findUntil tgt targetLen terminator termLen s =
     (case terminator of
        None \<Rightarrow>
          (let (r, s1) = findMulti [\<lparr>str = tgt, len = targetLen, index = 0\<rparr>] s
           in (r = 0, s1))
      | Some trm \<Rightarrow>
          (let (r, s1) = findMulti [\<lparr>str = tgt, len = targetLen, index = 0\<rparr>,
                                     \<lparr>str = trm, len = termLen, index = 0\<rparr>] s
           in (r = 0, s1)))"

definition find_target :: "byte list \<Rightarrow> 'w::len word stream \<Rightarrow> bool \<times> 'w word stream" where
  "find_target tgt s = findUntil tgt (length tgt) None 0 s"

section \<open>Inputs of the examples\<close>

text \<open>
  Byte strings, and a stream that holds one, with the default timeout
  \<^verbatim>\<open>PARSE_TIMEOUT = 1000\<close> (line 40).
\<close>

definition bytes :: "string \<Rightarrow> byte list" where
  "bytes cs = map of_char cs"

definition stream_of :: "string \<Rightarrow> 32 word stream" where
  "stream_of cs = \<lparr>input = bytes cs, now = 0, startMillis = 0, timeout = 1000\<rparr>"

text \<open>
  The scheme the comment of lines 358 to 361 rules out ("we can't just reset the current
  index to 0 when we find a mismatch"), for one pattern: the cursor \<open>k\<close> advances on a
  match and goes back to 0 on a mismatch. It is not code of the repository; it is here
  for the comparison of claim C1 only.
\<close>

fun reset_scan :: "byte list \<Rightarrow> nat \<Rightarrow> byte list \<Rightarrow> bool" where
  "reset_scan p k [] = False"
| "reset_scan p k (b # bs) =
     (if b = p ! k then (if k + 1 = length p then True else reset_scan p (k + 1) bs)
      else reset_scan p 0 bs)"

section \<open>Notions of the proofs\<close>

text \<open>
  These are not code. \<open>cursor_ok p xs k\<close>: after the bytes \<open>xs\<close>, the cursor \<open>k\<close> of the
  pattern \<open>p\<close> is the length of the longest prefix of \<open>p\<close> that ends \<open>xs\<close>, and \<open>p\<close> itself
  does not end \<open>xs\<close>. \<open>cand c p k j\<close>: the cursor may fall back from \<open>k\<close> to \<open>j\<close> on the byte
  \<open>c\<close>. \<open>tracks xs p t\<close>: the target \<open>t\<close> searches for \<open>p\<close> and its cursor is right after
  \<open>xs\<close>.
\<close>

definition cursor_ok :: "byte list \<Rightarrow> byte list \<Rightarrow> nat \<Rightarrow> bool" where
  "cursor_ok p xs k \<longleftrightarrow>
     k < length p \<and> suffix (take k p) xs \<and> (\<forall>j\<le>length p. suffix (take j p) xs \<longrightarrow> j \<le> k)"

definition cand :: "byte \<Rightarrow> byte list \<Rightarrow> nat \<Rightarrow> nat \<Rightarrow> bool" where
  "cand c p k j \<longleftrightarrow> p ! j = c \<and> suffix (take j p) (take k p)"

definition tracks :: "byte list \<Rightarrow> byte list \<Rightarrow> MultiTarget \<Rightarrow> bool" where
  "tracks xs p t \<longleftrightarrow> str t = p \<and> len t = length p \<and> cursor_ok p xs (index t)"


text \<open>
  For the parsers: the bytes that are digits, the bytes the lookahead stops at (\<open>starts\<close>)
  and the bytes it discards under a policy (\<open>skipped\<close>); what the two scanning loops do on
  the list of the waiting bytes once the first byte is accounted for (\<open>int_run\<close>,
  \<open>float_run\<close>: the accumulator at the end and the bytes left); the number a string of
  digits denotes, continued from \<open>n\<close> (\<open>decimal_from\<close>); the number \<^verbatim>\<open>parseInt\<close> makes of
  the bytes of a token (\<open>int_value\<close>: the digits that are not the ignore character, negated
  when a \<^verbatim>\<open>'-'\<close> that is not the ignore character is among them); the \<^verbatim>\<open>value\<close>
  \<^verbatim>\<open>parseFloat\<close> has accumulated after the bytes of a token, in a given arithmetic
  (\<open>accumulated\<close>); the \<^verbatim>\<open>double\<close> values that are a number not below zero or the
  positive infinity (\<open>not_negative\<close>); and the accumulators of \<^verbatim>\<open>parseFloat\<close> with the
  sign flag down, a value that is not negative and a scale factor between 0 and 1
  (\<open>unsigned_state\<close>).
\<close>

definition is_digit :: "byte \<Rightarrow> bool" where
  "is_digit y \<longleftrightarrow> 48 \<le> y \<and> y \<le> 57"

definition starts :: "bool \<Rightarrow> byte \<Rightarrow> bool" where
  "starts detectDecimal y \<longleftrightarrow> y = 45 \<or> is_digit y \<or> (detectDecimal \<and> y = 46)"

definition skipped :: "LookaheadMode \<Rightarrow> byte \<Rightarrow> bool" where
  "skipped lookahead y \<longleftrightarrow>
     (case lookahead of
        SKIP_ALL \<Rightarrow> True
      | SKIP_NONE \<Rightarrow> False
      | SKIP_WHITESPACE \<Rightarrow> y = 32 \<or> y = 9 \<or> y = 13 \<or> y = 10)"

fun int_run :: "byte \<Rightarrow> bool \<times> 'l::len word \<Rightarrow> byte list \<Rightarrow> (bool \<times> 'l word) \<times> byte list" where
  "int_run ig acc [] = (acc, [])"
| "int_run ig acc (y # ys) =
     (if is_digit y \<or> y = ig then int_run ig (parseInt_accum ig (uint y) acc) ys
      else (acc, y # ys))"

fun float_run ::
  "('d, 'f) fpu \<Rightarrow> byte \<Rightarrow> bool \<times> bool \<times> 'd \<times> 'd \<Rightarrow> byte list
   \<Rightarrow> (bool \<times> bool \<times> 'd \<times> 'd) \<times> byte list"
where
  "float_run F ig acc [] = (acc, [])"
| "float_run F ig acc (y # ys) =
     (if is_digit y \<or> (y = 46 \<and> \<not> fst (snd acc)) \<or> y = ig
      then float_run F ig (parseFloat_accum F ig (uint y) acc) ys
      else (acc, y # ys))"

definition decimal_from :: "int \<Rightarrow> byte list \<Rightarrow> int" where
  "decimal_from n ds = foldl (\<lambda>a d. a * 10 + (uint d - 48)) n ds"

definition int_value :: "byte \<Rightarrow> byte list \<Rightarrow> int" where
  "int_value ig bs =
     (let ds = filter (\<lambda>y. y \<noteq> ig) bs; n = decimal_from 0 (filter is_digit ds)
      in if 45 \<in> set ds then - n else n)"

definition accumulated :: "('d, 'f) fpu \<Rightarrow> byte \<Rightarrow> byte list \<Rightarrow> 'd" where
  "accumulated F ig tok =
     fst (snd (snd (foldl (\<lambda>a y. parseFloat_accum F ig (uint y) a)
                          (False, False, dlit F 0, dlit F 1) tok)))"

definition not_negative :: "ieee \<Rightarrow> bool" where
  "not_negative x \<longleftrightarrow> (case x of Finite r \<Rightarrow> 0 \<le> r | NegZero \<Rightarrow> False
                                  | Infinity b \<Rightarrow> b = False | NaN \<Rightarrow> False)"

definition unsigned_state :: "bool \<times> bool \<times> ieee \<times> ieee \<Rightarrow> bool" where
  "unsigned_state acc \<longleftrightarrow>
     fst acc = False \<and> not_negative (fst (snd (snd acc)))
     \<and> (case snd (snd (snd acc)) of Finite f \<Rightarrow> 0 \<le> f \<and> f \<le> 1 | _ \<Rightarrow> False)"

section \<open>Repeated peeks\<close>

lemma input_timedPeek_funpow: "input (((snd \<circ> timedPeek) ^^ n) s) = input s"
  by (induction n) (simp_all add: input_timedPeek)

text \<open>
  C8. Any number of \<^verbatim>\<open>timedPeek\<close> calls in a row, with no consuming call between them, leave
  the waiting bytes of the source as they were, and the call that follows them returns what
  the first call returned.
\<close>

theorem timedPeek_idempotent:
  "input (((snd \<circ> timedPeek) ^^ n) s) = input s
   \<and> fst (timedPeek (((snd \<circ> timedPeek) ^^ n) s)) = fst (timedPeek s)"
  by (simp add: fst_timedPeek input_timedPeek_funpow)

section \<open>The terminator of a bounded read\<close>

lemma readBytesUntil_loop_stops:
  assumes "input s = pre @ t # rest" and "t \<notin> set pre"
    and "k + length pre < m" and "m \<le> length buffer"
  shows "\<exists>s'. readBytesUntil_loop t m k buffer s
           = (k + length pre,
              take k buffer @ pre @ drop (k + length pre) buffer, s')
         \<and> input s' = rest"
  using assms
proof (induction pre arbitrary: k buffer s)
  case Nil
  have c: "fst (timedRead s) = uint t" and i: "input (snd (timedRead s)) = rest"
    using Nil.prems(1) by (simp_all add: fst_timedRead input_timedRead)
  have "readBytesUntil_loop t m k buffer s = (k, buffer, snd (timedRead s))"
    using Nil.prems(3) c
    by (subst readBytesUntil_loop.simps) (simp add: split_def)
  with i show ?case by simp
next
  case (Cons b pre)
  let ?s1 = "snd (timedRead s)"
  let ?buf = "buffer[k := b]"
  have c: "fst (timedRead s) = uint b" and i: "input ?s1 = pre @ t # rest"
    using Cons.prems(1) by (simp_all add: fst_timedRead input_timedRead)
  have ne: "b \<noteq> t" using Cons.prems(2) by auto
  have step: "readBytesUntil_loop t m k buffer s
      = readBytesUntil_loop t m (k + 1) ?buf ?s1"
    using Cons.prems(3) c ne
    by (subst readBytesUntil_loop.simps) (simp add: split_def)
  obtain s' where r: "readBytesUntil_loop t m (k + 1) ?buf ?s1
      = (k + 1 + length pre,
         take (k + 1) ?buf @ pre @ drop (k + 1 + length pre) ?buf, s')"
    and r': "input s' = rest"
    using Cons.IH[OF i, of "k + 1" ?buf] Cons.prems by auto
  have lt: "k < length buffer" using Cons.prems by simp
  have "take (k + 1) ?buf = take k buffer @ [b]"
    using lt by (simp add: take_Suc_conv_app_nth)
  moreover have "drop (k + 1 + length pre) ?buf = drop (k + 1 + length pre) buffer"
    by simp
  ultimately show ?case using step r r' by simp
qed

text \<open>
  C3, as the code has it. When the first byte equal to the terminator arrives before
  \<open>length\<close> bytes have been stored (and the array has room for \<open>length\<close> bytes),
  \<^verbatim>\<open>readBytesUntil\<close> stores the bytes before it, returns their number, does not store the
  terminator, and has consumed the terminator: the stream continues with the byte after it.
\<close>

theorem readBytesUntil_consumes_terminator:
  assumes "input s = pre @ t # rest" and "t \<notin> set pre"
    and "length pre < m" and "m \<le> length buffer"
  shows "\<exists>s'. readBytesUntil t buffer m s
           = (length pre, pre @ drop (length pre) buffer, s')
         \<and> input s' = rest"
  using readBytesUntil_loop_stops[OF assms(1,2), of 0 m buffer] assms(3,4)
  by (simp add: readBytesUntil_def)

theorem readBytesUntil_consumes_terminator_witness:
  "\<exists>s'. readBytesUntil 44 (replicate 10 0) 10 (stream_of ''abc,def'')
           = (3, bytes ''abc'' @ replicate 7 0, s')
        \<and> input s' = bytes ''def''"
  using readBytesUntil_consumes_terminator[of "stream_of ''abc,def''" "bytes ''abc''" 44
      "bytes ''def''" 10 "replicate 10 0"]
  by (simp add: stream_of_def bytes_def numeral_3_eq_3)

text \<open>
  The claim as the specification words it ("without consuming the terminator") fails:
  after \<^verbatim>\<open>readBytesUntil(',', buf, 10)\<close> on \<^verbatim>\<open>"abc,def"\<close> the stream holds \<^verbatim>\<open>"def"\<close>, not
  \<^verbatim>\<open>",def"\<close>.
\<close>

theorem readBytesUntil_terminator_counterexample:
  "fst (readBytesUntil 44 (replicate 10 0) 10 (stream_of ''abc,def'')) = 3
   \<and> input (snd (snd (readBytesUntil 44 (replicate 10 0) 10 (stream_of ''abc,def''))))
       = bytes ''def''
   \<and> input (snd (snd (readBytesUntil 44 (replicate 10 0) 10 (stream_of ''abc,def''))))
       \<noteq> bytes '',def''"
proof -
  obtain s' where "readBytesUntil 44 (replicate 10 0) 10 (stream_of ''abc,def'')
           = (3, bytes ''abc'' @ replicate 7 0, s')" and "input s' = bytes ''def''"
    using readBytesUntil_loop_stops[of "stream_of ''abc,def''" "bytes ''abc''" 44
      "bytes ''def''" 0 10 "replicate 10 0"]
    by (auto simp: stream_of_def bytes_def readBytesUntil_def)
  then show ?thesis by (simp add: bytes_def)
qed

section \<open>The cursor of a target is the longest prefix that ends the bytes read\<close>

lemma prefix_scan_full:
  "i \<le> idx \<Longrightarrow> prefix_scan s diff idx i = idx \<longleftrightarrow> (\<forall>j. i \<le> j \<and> j < idx \<longrightarrow> s ! j = s ! (j + diff))"
proof (induction s diff idx i rule: prefix_scan.induct)
  case (1 s diff idx i)
  show ?case
  proof (cases "i < idx")
    case False
    then show ?thesis using "1.prems" by (subst prefix_scan.simps) auto
  next
    case True
    show ?thesis
    proof (cases "s ! i = s ! (i + diff)")
      case False
      then show ?thesis using True by (subst prefix_scan.simps) auto
    next
      case eq: True
      have "prefix_scan s diff idx i = prefix_scan s diff idx (i + 1)"
        using True eq by (subst prefix_scan.simps) simp
      moreover have "prefix_scan s diff idx (i + 1) = idx
           \<longleftrightarrow> (\<forall>j. i + 1 \<le> j \<and> j < idx \<longrightarrow> s ! j = s ! (j + diff))"
        using "1.IH"[OF True] eq True by simp
      moreover have "(\<forall>j. i + 1 \<le> j \<and> j < idx \<longrightarrow> s ! j = s ! (j + diff))
           \<longleftrightarrow> (\<forall>j. i \<le> j \<and> j < idx \<longrightarrow> s ! j = s ! (j + diff))"
      proof (intro iffI allI impI)
        fix j assume h: "\<forall>j. i + 1 \<le> j \<and> j < idx \<longrightarrow> s ! j = s ! (j + diff)" and j: "i \<le> j \<and> j < idx"
        show "s ! j = s ! (j + diff)"
        proof (cases "j = i")
          case True then show ?thesis using eq by simp
        next
          case False then show ?thesis using h j by simp
        qed
      next
        fix j assume h: "\<forall>j. i \<le> j \<and> j < idx \<longrightarrow> s ! j = s ! (j + diff)" and j: "i + 1 \<le> j \<and> j < idx"
        then show "s ! j = s ! (j + diff)" by simp
      qed
      ultimately show ?thesis by simp
    qed
  qed
qed

lemma suffix_take_take:
  assumes "j \<le> k" "k \<le> length p"
  shows "suffix (take j p) (take k p) \<longleftrightarrow> (\<forall>i<j. p ! i = p ! (i + (k - j)))"
proof -
  have "suffix (take j p) (take k p) \<longleftrightarrow> take j p = drop (k - j) (take k p)"
  proof
    assume "suffix (take j p) (take k p)"
    then obtain zs where z: "take k p = zs @ take j p" by (auto simp: suffix_def)
    then have "length (take k p) = length zs + length (take j p)" by simp
    then have "length zs = k - j" using assms by simp
    with z show "take j p = drop (k - j) (take k p)" by simp
  next
    assume "take j p = drop (k - j) (take k p)"
    then show "suffix (take j p) (take k p)" by (metis suffix_drop)
  qed
  also have "\<dots> \<longleftrightarrow> (\<forall>i<j. p ! i = p ! (i + (k - j)))"
  proof
    assume e: "take j p = drop (k - j) (take k p)"
    show "\<forall>i<j. p ! i = p ! (i + (k - j))"
    proof (intro allI impI)
      fix i assume "i < j"
      then have "p ! i = take j p ! i" by simp
      also have "\<dots> = drop (k - j) (take k p) ! i" using e by simp
      also have "\<dots> = p ! (i + (k - j))" using assms \<open>i < j\<close> by (simp add: add.commute)
      finally show "p ! i = p ! (i + (k - j))" .
    qed
  next
    assume a: "\<forall>i<j. p ! i = p ! (i + (k - j))"
    show "take j p = drop (k - j) (take k p)"
      using assms a by (intro nth_equalityI) (auto simp: add.commute)
  qed
  finally show ?thesis .
qed

lemma suffix_within:
  assumes "suffix (take k p) xs" "j \<le> k" "k \<le> length p"
  shows "suffix (take j p) xs \<longleftrightarrow> suffix (take j p) (take k p)"
proof
  assume a: "suffix (take j p) xs"
  have l: "length (take j p) \<le> length (take k p)" using assms(2,3) by simp
  show "suffix (take j p) (take k p)"
    by (rule suffix_length_suffix[OF a assms(1) l])
next
  assume "suffix (take j p) (take k p)"
  then show "suffix (take j p) xs" using assms(1) by (rule suffix_order.trans)
qed

lemma suffix_take_Suc:
  assumes "j < length p"
  shows "suffix (take (Suc j) p) (xs @ [b]) \<longleftrightarrow> suffix (take j p) xs \<and> p ! j = b"
  using assms by (auto simp: take_Suc_conv_app_nth)


lemma walk_back_unfold:
  assumes "0 < i" "i \<le> k" "k \<le> length p"
  shows "walk_back c p k i =
     (if cand c p k (i - 1) then i else if i - 1 \<noteq> 0 then walk_back c p k (i - 1) else 0)"
proof -
  have scan: "prefix_scan p (k - (i - 1)) (i - 1) 0 = i - 1 \<longleftrightarrow> suffix (take (i - 1) p) (take k p)"
    using assms by (simp add: prefix_scan_full suffix_take_take)
  show ?thesis
  proof (cases "i - 1 = 0")
    case True
    then show ?thesis using assms
      by (subst walk_back.simps) (auto simp: cand_def Let_def)
  next
    case False
    then show ?thesis using assms scan
      by (subst walk_back.simps) (auto simp: cand_def Let_def)
  qed
qed

lemma walk_back_spec:
  assumes "i \<le> k" "k \<le> length p"
  shows "0 < i \<Longrightarrow>
    (walk_back c p k i = 0 \<and> (\<forall>j<i. \<not> cand c p k j))
    \<or> (\<exists>j<i. walk_back c p k i = Suc j \<and> cand c p k j \<and> (\<forall>j'. j < j' \<and> j' < i \<longrightarrow> \<not> cand c p k j'))"
  using assms(1)
proof (induction i)
  case 0
  then show ?case by simp
next
  case (Suc i)
  have u: "walk_back c p k (Suc i) =
     (if cand c p k i then Suc i else if i \<noteq> 0 then walk_back c p k i else 0)"
    using walk_back_unfold[of "Suc i" k p c] Suc.prems assms(2) by simp
  show ?case
  proof (cases "cand c p k i")
    case True
    then show ?thesis using u by auto
  next
    case nc: False
    show ?thesis
    proof (cases "i = 0")
      case True
      then show ?thesis using u nc by auto
    next
      case False
      then have w: "walk_back c p k (Suc i) = walk_back c p k i" using u nc by simp
      have ih: "(walk_back c p k i = 0 \<and> (\<forall>j<i. \<not> cand c p k j))
        \<or> (\<exists>j<i. walk_back c p k i = Suc j \<and> cand c p k j \<and> (\<forall>j'. j < j' \<and> j' < i \<longrightarrow> \<not> cand c p k j'))"
        using Suc.IH Suc.prems False by simp
      then show ?thesis
      proof
        assume a: "walk_back c p k i = 0 \<and> (\<forall>j<i. \<not> cand c p k j)"
        then have "\<forall>j<Suc i. \<not> cand c p k j" using nc by (simp add: less_Suc_eq)
        then show ?thesis using a w by simp
      next
        assume "\<exists>j<i. walk_back c p k i = Suc j \<and> cand c p k j \<and> (\<forall>j'. j < j' \<and> j' < i \<longrightarrow> \<not> cand c p k j')"
        then obtain j where j: "j < i" "walk_back c p k i = Suc j" "cand c p k j"
          "\<forall>j'. j < j' \<and> j' < i \<longrightarrow> \<not> cand c p k j'" by blast
        have "\<forall>j'. j < j' \<and> j' < Suc i \<longrightarrow> \<not> cand c p k j'"
          using j(4) nc by (auto simp: less_Suc_eq)
        then show ?thesis using j w by auto
      qed
    qed
  qed
qed

lemma cursor_okI:
  "k < length p \<Longrightarrow> suffix (take k p) xs
   \<Longrightarrow> \<forall>j\<le>length p. suffix (take j p) xs \<longrightarrow> j \<le> k \<Longrightarrow> cursor_ok p xs k"
  by (simp only: cursor_ok_def simp_thms)

lemma cursor_ok_no_match:
  assumes "cursor_ok p xs k"
  shows "\<not> suffix p xs"
proof
  assume "suffix p xs"
  then have "suffix (take (length p) p) xs" by simp
  moreover have "\<forall>j\<le>length p. suffix (take j p) xs \<longrightarrow> j \<le> k" "k < length p"
    using assms unfolding cursor_ok_def by blast+
  ultimately show False by (metis le_refl not_less)
qed

lemma cursor_ok_advance:
  assumes "cursor_ok p xs k" "p ! k = b"
  shows "suffix (take (Suc k) p) (xs @ [b])"
    and "\<forall>j\<le>length p. suffix (take j p) (xs @ [b]) \<longrightarrow> j \<le> Suc k"
proof -
  have k: "k < length p" "suffix (take k p) xs"
    and mx: "\<And>j. j \<le> length p \<Longrightarrow> suffix (take j p) xs \<Longrightarrow> j \<le> k"
    using assms(1) by (auto simp: cursor_ok_def)
  show "suffix (take (Suc k) p) (xs @ [b])"
    using k assms(2) by (simp only: suffix_take_Suc)
  show "\<forall>j\<le>length p. suffix (take j p) (xs @ [b]) \<longrightarrow> j \<le> Suc k"
  proof (intro allI impI)
    fix j assume j: "j \<le> length p" "suffix (take j p) (xs @ [b])"
    show "j \<le> Suc k"
    proof (cases j)
      case 0 then show ?thesis by simp
    next
      case (Suc j')
      then have "j' < length p" using j by simp
      then have "suffix (take j' p) xs" using j(2) Suc by (simp only: suffix_take_Suc)
      then have "j' \<le> k" using mx[of j'] \<open>j' < length p\<close> by simp
      then show ?thesis using Suc by simp
    qed
  qed
qed

lemma cursor_ok_fallback:
  assumes "cursor_ok p xs k" "p ! k \<noteq> b"
  shows "cursor_ok p (xs @ [b]) (if k = 0 then 0 else walk_back b p k k)"
proof -
  have k: "k < length p" "suffix (take k p) xs"
    and mx: "\<And>j. j \<le> length p \<Longrightarrow> suffix (take j p) xs \<Longrightarrow> j \<le> k"
    using assms(1) by (auto simp: cursor_ok_def)
  text \<open>every prefix that ends at the new byte comes from a candidate below k\<close>
  have below: "j' < k \<and> cand b p k j'"
    if "Suc j' \<le> length p" "suffix (take (Suc j') p) (xs @ [b])" for j'
  proof -
    have jl: "j' < length p" using that(1) by simp
    then have s: "suffix (take j' p) xs" and e: "p ! j' = b"
      using that(2) by (simp_all only: suffix_take_Suc)
    have "j' \<le> k" using mx[of j'] jl s by simp
    moreover have "j' \<noteq> k" using e assms(2) by auto
    ultimately have lt: "j' < k" by simp
    have "suffix (take j' p) (take k p)"
      using suffix_within[OF k(2), of j'] lt k(1) s by simp
    then show ?thesis using lt e by (simp add: cand_def)
  qed
  show ?thesis
  proof (cases "k = 0")
    case True
    have "\<forall>j\<le>length p. suffix (take j p) (xs @ [b]) \<longrightarrow> j \<le> 0"
    proof (intro allI impI)
      fix j assume j: "j \<le> length p" "suffix (take j p) (xs @ [b])"
      show "j \<le> 0"
      proof (cases j)
        case 0 then show ?thesis by simp
      next
        case (Suc j')
        then show ?thesis using below[of j'] j True by simp
      qed
    qed
    moreover have "0 < length p" using k(1) by arith
    moreover have "suffix (take 0 p) (xs @ [b])" by simp
    ultimately have "cursor_ok p (xs @ [b]) 0" by (intro cursor_okI)
    then show ?thesis using True by simp
  next
    case False
    then have pos: "0 < k" by simp
    have kl: "k \<le> length p" using k(1) by simp
    from walk_back_spec[OF le_refl kl pos, of b]
    show ?thesis
    proof
      assume a: "walk_back b p k k = 0 \<and> (\<forall>j<k. \<not> cand b p k j)"
      have "\<forall>j\<le>length p. suffix (take j p) (xs @ [b]) \<longrightarrow> j \<le> 0"
      proof (intro allI impI)
        fix j assume j: "j \<le> length p" "suffix (take j p) (xs @ [b])"
        show "j \<le> 0"
        proof (cases j)
          case 0 then show ?thesis by simp
        next
          case (Suc j')
          then have "j' < k \<and> cand b p k j'" using below[of j'] j by blast
          then show ?thesis using a by blast
        qed
      qed
      moreover have "0 < length p" using k(1) by arith
      moreover have "suffix (take 0 p) (xs @ [b])" by simp
      ultimately have "cursor_ok p (xs @ [b]) 0" by (intro cursor_okI)
      moreover have "(if k = 0 then 0 else walk_back b p k k) = 0" using False a by simp
      ultimately show ?thesis by (simp only:)
    next
      assume "\<exists>j<k. walk_back b p k k = Suc j \<and> cand b p k j
         \<and> (\<forall>j'. j < j' \<and> j' < k \<longrightarrow> \<not> cand b p k j')"
      then obtain j where j: "j < k" "walk_back b p k k = Suc j" "cand b p k j"
          "\<forall>j'. j < j' \<and> j' < k \<longrightarrow> \<not> cand b p k j'" by blast
      have jl: "j < length p" using j(1) k(1) by simp
      have "suffix (take j p) (take k p)" using j(3) by (simp only: cand_def)
      then have "suffix (take j p) xs" using k(2) by (rule suffix_order.trans)
      moreover have "p ! j = b" using j(3) by (simp add: cand_def)
      ultimately have s: "suffix (take (Suc j) p) (xs @ [b])"
        using jl by (simp only: suffix_take_Suc)
      have m: "\<forall>m\<le>length p. suffix (take m p) (xs @ [b]) \<longrightarrow> m \<le> Suc j"
      proof (intro allI impI)
        fix m assume m: "m \<le> length p" "suffix (take m p) (xs @ [b])"
        show "m \<le> Suc j"
        proof (cases m)
          case 0 then show ?thesis by simp
        next
          case (Suc j')
          then have "j' < k \<and> cand b p k j'" using below[of j'] m by blast
          then have "\<not> j < j'" using j(4) by blast
          then show ?thesis using Suc by simp
        qed
      qed
      have "Suc j < length p" using j(1) k(1) by simp
      then have "cursor_ok p (xs @ [b]) (Suc j)" using s m by (intro cursor_okI)
      moreover have "(if k = 0 then 0 else walk_back b p k k) = Suc j" using False j(2) by simp
      ultimately show ?thesis by (simp only:)
    qed
  qed
qed


lemma match_target_True:
  assumes "tracks xs p t" "match_target b t = (True, t1)"
  shows "suffix p (xs @ [b])"
proof -
  have t: "str t = p" "len t = length p" "cursor_ok p xs (index t)"
    using assms(1) by (simp_all add: tracks_def)
  have "b = p ! index t \<and> index t + 1 = length p"
    using assms(2) t(1,2) by (auto simp: match_target_def Let_def split: if_splits)
  then have "p ! index t = b" "take (Suc (index t)) p = p" by simp_all
  then show ?thesis using cursor_ok_advance(1)[OF t(3), of b] by simp
qed

lemma match_target_False:
  assumes "tracks xs p t" "match_target b t = (False, t1)"
  shows "tracks (xs @ [b]) p t1"
proof -
  have t: "str t = p" "len t = length p" "cursor_ok p xs (index t)"
    using assms(1) by (simp_all add: tracks_def)
  have kl: "index t < length p" using t(3) unfolding cursor_ok_def by blast
  show ?thesis
  proof (cases "b = p ! index t")
    case True
    then have t1: "t1 = t\<lparr>index := index t + 1\<rparr>" and ne: "index t + 1 \<noteq> length p"
      using assms(2) t(1,2) by (auto simp: match_target_def Let_def split: if_splits)
    have "Suc (index t) < length p" using kl ne by simp
    then have "cursor_ok p (xs @ [b]) (Suc (index t))"
      using cursor_ok_advance[OF t(3) True[symmetric]] by (intro cursor_okI)
    then show ?thesis using t1 t(1,2) by (simp add: tracks_def)
  next
    case False
    then have t1: "t1 = t\<lparr>index := (if index t = 0 then 0 else walk_back b p (index t) (index t))\<rparr>"
      using assms(2) t(1,2) by (auto simp: match_target_def Let_def split: if_splits)
    have "cursor_ok p (xs @ [b]) (if index t = 0 then 0 else walk_back b p (index t) (index t))"
      using cursor_ok_fallback[OF t(3), of b] False by simp
    then show ?thesis using t1 t(1,2) by (simp add: tracks_def)
  qed
qed

lemma tracks_no_match: "tracks xs p t \<Longrightarrow> \<not> suffix p xs"
  using cursor_ok_no_match by (auto simp: tracks_def)

lemma scan_targets_None:
  assumes "list_all2 (tracks xs) ps ts" "scan_targets b ts k = (None, ts1)"
  shows "list_all2 (tracks (xs @ [b])) ps ts1"
  using assms
proof (induction ps ts arbitrary: k ts1 rule: list_all2_induct)
  case Nil
  then show ?case by simp
next
  case (Cons p ps t ts)
  obtain m t1 where mt: "match_target b t = (m, t1)" by (cases "match_target b t")
  have nm: "\<not> m" using Cons.prems mt by (cases m) auto
  obtain r ts2 where sc: "scan_targets b ts (k + 1) = (r, ts2)" by (cases "scan_targets b ts (k + 1)")
  have "r = None" "ts1 = t1 # ts2" using Cons.prems mt nm sc by auto
  moreover have "tracks (xs @ [b]) p t1" using match_target_False[OF Cons.hyps(1)] mt nm by simp
  moreover have "list_all2 (tracks (xs @ [b])) ps ts2"
    using Cons.IH[of "k + 1" ts2] sc \<open>r = None\<close> by simp
  ultimately show ?case by simp
qed

lemma scan_targets_Some:
  assumes "list_all2 (tracks xs) ps ts" "scan_targets b ts k = (Some m, ts1)"
  shows "\<exists>i<length ps. m = k + i \<and> suffix (ps ! i) (xs @ [b])
           \<and> (\<forall>j<i. \<not> suffix (ps ! j) (xs @ [b]))"
  using assms
proof (induction ps ts arbitrary: k ts1 rule: list_all2_induct)
  case Nil
  then show ?case by simp
next
  case (Cons p ps t ts)
  obtain h t1 where mt: "match_target b t = (h, t1)" by (cases "match_target b t")
  show ?case
  proof (cases h)
    case True
    then have "m = k" using Cons.prems mt by simp
    moreover have "suffix p (xs @ [b])" using match_target_True[OF Cons.hyps(1)] mt True by simp
    ultimately show ?thesis by (intro exI[of _ 0]) simp
  next
    case False
    obtain r ts2 where sc: "scan_targets b ts (k + 1) = (r, ts2)" by (cases "scan_targets b ts (k + 1)")
    have "r = Some m" using Cons.prems mt False sc by auto
    then obtain i where i: "i < length ps" "m = k + 1 + i" "suffix (ps ! i) (xs @ [b])"
      "\<forall>j<i. \<not> suffix (ps ! j) (xs @ [b])"
      using Cons.IH[of "k + 1" ts2] sc by auto
    have np: "\<not> suffix p (xs @ [b])"
      using tracks_no_match[OF match_target_False[OF Cons.hyps(1)]] mt False by simp
    have "\<forall>j<Suc i. \<not> suffix ((p # ps) ! j) (xs @ [b])"
    proof (intro allI impI)
      fix j assume "j < Suc i"
      then show "\<not> suffix ((p # ps) ! j) (xs @ [b])"
        using np i(4) by (cases j) simp_all
    qed
    then show ?thesis using i by (intro exI[of _ "Suc i"]) simp
  qed
qed

lemma findMulti_loop_step:
  assumes "input s = b # ys"
  shows "findMulti_loop ts s =
     (case scan_targets b ts 0 of
        (Some k, ts1) \<Rightarrow> (int k, snd (timedRead s))
      | (None, ts1) \<Rightarrow> findMulti_loop ts1 (snd (timedRead s)))"
proof -
  have "fst (timedRead s) = uint b" using assms by (simp add: fst_timedRead)
  then show ?thesis
    by (subst findMulti_loop.simps) (simp add: split_def Let_def)
qed

lemma input_timedRead_Cons: "input s = b # ys \<Longrightarrow> input (snd (timedRead s)) = ys"
  by (simp add: input_timedRead)

lemma findMulti_loop_end:
  assumes "input s = []"
  shows "fst (findMulti_loop ts s) = - 1 \<and> input (snd (findMulti_loop ts s)) = []"
proof -
  have "fst (timedRead s) = - 1" "input (snd (timedRead s)) = []"
    using assms by (simp_all add: fst_timedRead input_timedRead)
  then show ?thesis by (subst (1 2) findMulti_loop.simps) (simp add: split_def)
qed

lemma findMulti_loop_none:
  assumes "list_all2 (tracks xs) ps ts" "input s = ys"
    and "\<forall>n. 0 < n \<and> n \<le> length ys \<longrightarrow> (\<forall>p\<in>set ps. \<not> suffix p (xs @ take n ys))"
  shows "fst (findMulti_loop ts s) = - 1 \<and> input (snd (findMulti_loop ts s)) = []"
  using assms
proof (induction ys arbitrary: xs ts s)
  case Nil
  then show ?case using findMulti_loop_end by simp
next
  case (Cons b ys)
  note st = findMulti_loop_step[OF Cons.prems(2), of ts] input_timedRead_Cons[OF Cons.prems(2)]
  obtain r ts1 where sc: "scan_targets b ts 0 = (r, ts1)" by (cases "scan_targets b ts 0")
  have nb: "\<forall>p\<in>set ps. \<not> suffix p (xs @ [b])"
    using Cons.prems(3)[rule_format, of 1] by simp
  have "r = None"
  proof (cases r)
    case None then show ?thesis .
  next
    case (Some m)
    then obtain i where "i < length ps" "suffix (ps ! i) (xs @ [b])"
      using scan_targets_Some[OF Cons.prems(1), of b 0 m ts1] sc by auto
    then show ?thesis using nb by (metis nth_mem)
  qed
  then have tr: "list_all2 (tracks (xs @ [b])) ps ts1"
    using scan_targets_None[OF Cons.prems(1), of b 0 ts1] sc by simp
  have rest: "\<forall>n. 0 < n \<and> n \<le> length ys \<longrightarrow> (\<forall>p\<in>set ps. \<not> suffix p ((xs @ [b]) @ take n ys))"
  proof (intro allI impI)
    fix n assume "0 < n \<and> n \<le> length ys"
    then show "\<forall>p\<in>set ps. \<not> suffix p ((xs @ [b]) @ take n ys)"
      using Cons.prems(3)[rule_format, of "Suc n"] by simp
  qed
  have "findMulti_loop ts s = findMulti_loop ts1 (snd (timedRead s))"
    using st(1) sc \<open>r = None\<close> by simp
  then show ?case using Cons.IH[OF tr st(2) rest] by simp
qed

lemma findMulti_loop_first:
  assumes "list_all2 (tracks xs) ps ts" "input s = ys"
    and "0 < n" "n \<le> length ys" "i < length ps"
    and "suffix (ps ! i) (xs @ take n ys)"
    and "\<forall>m. 0 < m \<and> m < n \<longrightarrow> (\<forall>p\<in>set ps. \<not> suffix p (xs @ take m ys))"
    and "\<forall>j<i. \<not> suffix (ps ! j) (xs @ take n ys)"
  shows "fst (findMulti_loop ts s) = int i \<and> input (snd (findMulti_loop ts s)) = drop n ys"
  using assms
proof (induction ys arbitrary: xs ts s n)
  case Nil
  then show ?case by simp
next
  case (Cons b ys)
  note st = findMulti_loop_step[OF Cons.prems(2), of ts] input_timedRead_Cons[OF Cons.prems(2)]
  obtain r ts1 where sc: "scan_targets b ts 0 = (r, ts1)" by (cases "scan_targets b ts 0")
  show ?case
  proof (cases "n = 1")
    case True
    have si: "suffix (ps ! i) (xs @ [b])" and mi: "\<forall>j<i. \<not> suffix (ps ! j) (xs @ [b])"
      using Cons.prems(6,8) True by simp_all
    have "r = Some i"
    proof (cases r)
      case None
      then have "list_all2 (tracks (xs @ [b])) ps ts1"
        using scan_targets_None[OF Cons.prems(1), of b 0 ts1] sc by simp
      then have "tracks (xs @ [b]) (ps ! i) (ts1 ! i)"
        using Cons.prems(5) by (simp add: list_all2_conv_all_nth)
      then show ?thesis using tracks_no_match si by blast
    next
      case (Some m)
      then obtain i' where i': "i' < length ps" "m = i'" "suffix (ps ! i') (xs @ [b])"
        "\<forall>j<i'. \<not> suffix (ps ! j) (xs @ [b])"
        using scan_targets_Some[OF Cons.prems(1), of b 0 m ts1] sc by auto
      have "i' = i" using i'(3,4) si mi by (meson linorder_neqE_nat)
      then show ?thesis using Some i'(2) by simp
    qed
    then have "findMulti_loop ts s = (int i, snd (timedRead s))" using st(1) sc by simp
    then show ?thesis using st(2) True by simp
  next
    case False
    then have n: "1 < n" using Cons.prems(3) by simp
    have nb: "\<forall>p\<in>set ps. \<not> suffix p (xs @ [b])"
      using Cons.prems(7)[rule_format, of 1] n by simp
    have "r = None"
    proof (cases r)
      case None then show ?thesis .
    next
      case (Some m)
      then obtain i' where "i' < length ps" "suffix (ps ! i') (xs @ [b])"
        using scan_targets_Some[OF Cons.prems(1), of b 0 m ts1] sc by auto
      then show ?thesis using nb by (metis nth_mem)
    qed
    then have tr: "list_all2 (tracks (xs @ [b])) ps ts1"
      using scan_targets_None[OF Cons.prems(1), of b 0 ts1] sc by simp
    obtain n' where n': "n = Suc n'" "0 < n'" using n by (cases n) auto
    have a4: "n' \<le> length ys" using Cons.prems(4) n' by simp
    have a6: "suffix (ps ! i) ((xs @ [b]) @ take n' ys)" using Cons.prems(6) n' by simp
    have a7: "\<forall>m. 0 < m \<and> m < n' \<longrightarrow> (\<forall>p\<in>set ps. \<not> suffix p ((xs @ [b]) @ take m ys))"
    proof (intro allI impI)
      fix m assume "0 < m \<and> m < n'"
      then show "\<forall>p\<in>set ps. \<not> suffix p ((xs @ [b]) @ take m ys)"
        using Cons.prems(7)[rule_format, of "Suc m"] n' by simp
    qed
    have a8: "\<forall>j<i. \<not> suffix (ps ! j) ((xs @ [b]) @ take n' ys)"
      using Cons.prems(8) n' by simp
    have "findMulti_loop ts s = findMulti_loop ts1 (snd (timedRead s))"
      using st(1) sc \<open>r = None\<close> by simp
    then show ?thesis
      using Cons.IH[OF tr st(2) n'(2) a4 Cons.prems(5) a6 a7 a8] n' by simp
  qed
qed


lemma zero_length_None: "\<forall>t\<in>set ts. 0 < len t \<Longrightarrow> zero_length ts k = None"
  by (induction ts arbitrary: k) auto

lemma zero_length_Some:
  "\<exists>t\<in>set ts. len t = 0 \<Longrightarrow>
   \<exists>i<length ts. zero_length ts k = Some (k + i) \<and> len (ts ! i) = 0 \<and> (\<forall>j<i. 0 < len (ts ! j))"
proof (induction ts arbitrary: k)
  case Nil
  then show ?case by simp
next
  case (Cons t ts)
  show ?case
  proof (cases "len t = 0")
    case True
    then show ?thesis by (intro exI[of _ 0]) simp
  next
    case False
    then have "\<exists>t\<in>set ts. len t = 0" using Cons.prems by simp
    then obtain i where i: "i < length ts" "zero_length ts (k + 1) = Some (k + 1 + i)"
      "len (ts ! i) = 0" "\<forall>j<i. 0 < len (ts ! j)"
      using Cons.IH[of "k + 1"] by blast
    have "\<forall>j<Suc i. 0 < len ((t # ts) ! j)"
    proof (intro allI impI)
      fix j assume "j < Suc i"
      then show "0 < len ((t # ts) ! j)" using False i(4) by (cases j) simp_all
    qed
    then show ?thesis using i False by (intro exI[of _ "Suc i"]) simp
  qed
qed

lemma tracks_start: "p \<noteq> [] \<Longrightarrow> tracks [] p (target p)"
proof -
  assume ne: "p \<noteq> []"
  have "\<forall>j\<le>length p. suffix (take j p) [] \<longrightarrow> j \<le> 0"
    using ne by auto
  moreover have "0 < length p" using ne by simp
  moreover have "suffix (take 0 p) []" by simp
  ultimately have "cursor_ok p [] 0" by (intro cursor_okI)
  then show ?thesis by (simp add: tracks_def target_def)
qed

lemma tracks_start_all: "\<forall>p\<in>set ps. p \<noteq> [] \<Longrightarrow> list_all2 (tracks []) ps (map target ps)"
  by (induction ps) (simp_all add: tracks_start)

lemma findMulti_targets:
  assumes "\<forall>p\<in>set ps. p \<noteq> []"
  shows "findMulti (map target ps) s = findMulti_loop (map target ps) s"
proof -
  have "\<forall>t\<in>set (map target ps). 0 < len t" using assms by (simp add: target_def)
  then show ?thesis by (simp add: findMulti_def zero_length_None)
qed

lemma suffix_take_sublist: "suffix p (take n ys) \<Longrightarrow> sublist p ys"
proof -
  assume "suffix p (take n ys)"
  then obtain zs where "take n ys = zs @ p" by (auto simp: suffix_def)
  then have "ys = zs @ p @ drop n ys" by (metis append_assoc append_take_drop_id)
  then show ?thesis unfolding sublist_def by blast
qed

lemma sublist_suffix_take:
  assumes "sublist p ys"
  shows "\<exists>n\<le>length ys. suffix p (take n ys)"
proof -
  obtain us vs where e: "ys = us @ p @ vs" using assms by (auto simp: sublist_def)
  have "take (length (us @ p)) ys = us @ p" using e by simp
  then have "suffix p (take (length (us @ p)) ys)" by (simp add: suffix_def)
  moreover have "length (us @ p) \<le> length ys" using e by simp
  ultimately show ?thesis by blast
qed


lemma first_match_general:
  assumes ne: "\<forall>p\<in>set ps. p \<noteq> []" and occ: "\<exists>p\<in>set ps. sublist p (input s)"
  shows "\<exists>n i. 0 < n \<and> n \<le> length (input s) \<and> i < length ps
          \<and> suffix (ps ! i) (take n (input s))
          \<and> (\<forall>m<n. \<forall>p\<in>set ps. \<not> suffix p (take m (input s)))
          \<and> (\<forall>j<i. \<not> suffix (ps ! j) (take n (input s)))
          \<and> fst (findMulti (map target ps) s) = int i
          \<and> input (snd (findMulti (map target ps) s)) = drop n (input s)"
proof -
  define ys where "ys = input s"
  define P where "P n \<longleftrightarrow> n \<le> length ys \<and> (\<exists>p\<in>set ps. suffix p (take n ys))" for n
  have "\<exists>n. P n" using occ sublist_suffix_take unfolding P_def ys_def by blast
  then obtain n0 where "P n0" ..
  define n where "n = (LEAST n. P n)"
  have Pn: "P n" unfolding n_def using \<open>P n0\<close> by (rule LeastI)
  have least: "\<not> P m" if "m < n" for m using that not_less_Least unfolding n_def by blast
  have nl: "n \<le> length ys" using Pn by (simp add: P_def)
  have npos: "0 < n"
  proof (rule ccontr)
    assume "\<not> 0 < n"
    then have "\<exists>p\<in>set ps. suffix p []" using Pn by (simp add: P_def)
    then show False using ne by auto
  qed
  define Q where "Q i \<longleftrightarrow> i < length ps \<and> suffix (ps ! i) (take n ys)" for i
  have "\<exists>i. Q i" using Pn unfolding P_def Q_def by (metis in_set_conv_nth)
  then obtain i0 where "Q i0" ..
  define i where "i = (LEAST i. Q i)"
  have Qi: "Q i" unfolding i_def using \<open>Q i0\<close> by (rule LeastI)
  have il: "i < length ps" and si: "suffix (ps ! i) (take n ys)" using Qi by (simp_all add: Q_def)
  have mi: "\<forall>j<i. \<not> suffix (ps ! j) (take n ys)"
  proof (intro allI impI)
    fix j assume "j < i"
    then have "\<not> Q j" using not_less_Least unfolding i_def by blast
    then show "\<not> suffix (ps ! j) (take n ys)" using \<open>j < i\<close> il by (simp add: Q_def)
  qed
  have before: "\<forall>m<n. \<forall>p\<in>set ps. \<not> suffix p (take m ys)"
  proof (intro allI impI)
    fix m assume "m < n"
    then have "\<not> P m" by (rule least)
    then show "\<forall>p\<in>set ps. \<not> suffix p (take m ys)" using \<open>m < n\<close> nl by (simp add: P_def)
  qed
  have run: "fst (findMulti_loop (map target ps) s) = int i
      \<and> input (snd (findMulti_loop (map target ps) s)) = drop n ys"
  proof (rule findMulti_loop_first[OF tracks_start_all[OF ne] ys_def[symmetric] npos nl il])
    show "suffix (ps ! i) ([] @ take n ys)" using si by simp
    show "\<forall>m. 0 < m \<and> m < n \<longrightarrow> (\<forall>p\<in>set ps. \<not> suffix p ([] @ take m ys))"
      using before by simp
    show "\<forall>j<i. \<not> suffix (ps ! j) ([] @ take n ys)" using mi by simp
  qed
  show ?thesis
    using npos nl il si before mi run unfolding findMulti_targets[OF ne] ys_def by blast
qed

lemma no_occurrence_general:
  assumes ne: "\<forall>p\<in>set ps. p \<noteq> []" and no: "\<forall>p\<in>set ps. \<not> sublist p (input s)"
  shows "fst (findMulti (map target ps) s) = - 1
       \<and> input (snd (findMulti (map target ps) s)) = []"
proof -
  have "\<forall>n. 0 < n \<and> n \<le> length (input s)
          \<longrightarrow> (\<forall>p\<in>set ps. \<not> suffix p ([] @ take n (input s)))"
    using no suffix_take_sublist by auto
  from findMulti_loop_none[OF tracks_start_all[OF ne] refl this]
  show ?thesis unfolding findMulti_targets[OF ne] .
qed

lemma findUntil_targets:
  "findUntil tgt (length tgt) None 0 s =
     (fst (findMulti (map target [tgt]) s) = 0, snd (findMulti (map target [tgt]) s))"
  "findUntil tgt (length tgt) (Some trm) (length trm) s =
     (fst (findMulti (map target [tgt, trm]) s) = 0, snd (findMulti (map target [tgt, trm]) s))"
  by (simp_all add: findUntil_def target_def split_def Let_def)

text \<open>
  C2. For patterns that are all non-empty, when no pattern occurs in the bytes of the
  source, \<^verbatim>\<open>findMulti\<close> returns \<open>-1\<close> once the source is exhausted and the timed read
  gives up, and no byte is left unread; \<^verbatim>\<open>find\<close> and \<^verbatim>\<open>findUntil\<close> then return false.
\<close>

theorem findMulti_no_occurrence:
  assumes "\<forall>p\<in>set ps. p \<noteq> []" and "\<forall>p\<in>set ps. \<not> sublist p (input s)"
  shows "fst (findMulti (map target ps) s) = - 1
       \<and> input (snd (findMulti (map target ps) s)) = []
       \<and> (ps = [tgt] \<longrightarrow> \<not> fst (find_target tgt s) \<and> input (snd (find_target tgt s)) = [])
       \<and> (ps = [tgt, trm] \<longrightarrow>
            \<not> fst (findUntil tgt (length tgt) (Some trm) (length trm) s)
            \<and> input (snd (findUntil tgt (length tgt) (Some trm) (length trm) s)) = [])"
  using no_occurrence_general[OF assms]
  by (auto simp: find_target_def findUntil_targets)

text \<open>
  C7. When some target has length zero, \<^verbatim>\<open>findMulti\<close> returns the index of the first such
  target in the list, and the stream (its bytes and its clock) is as it was: nothing has
  been read.
\<close>

theorem findMulti_zero_length:
  assumes "\<exists>t\<in>set targets. len t = 0"
  shows "\<exists>i<length targets. len (targets ! i) = 0 \<and> (\<forall>j<i. 0 < len (targets ! j))
           \<and> findMulti targets s = (int i, s)"
proof -
  obtain i where "i < length targets" "zero_length targets 0 = Some (0 + i)"
    "len (targets ! i) = 0" "\<forall>j<i. 0 < len (targets ! j)"
    using zero_length_Some[OF assms, of 0] by blast
  then show ?thesis by (intro exI[of _ i]) (simp add: findMulti_def)
qed


text \<open>
  C1. For patterns that are all non-empty, when some pattern occurs in the bytes of the
  source, \<^verbatim>\<open>findMulti\<close> returns the index \<open>i\<close> of the pattern whose occurrence is complete
  first: there is a position \<open>n\<close> at which pattern \<open>i\<close> ends, no pattern ends at an earlier
  position, no pattern before \<open>i\<close> in the list ends at \<open>n\<close>, and the stream is left right
  after position \<open>n\<close>. In particular \<^verbatim>\<open>"1112"\<close> is found in \<^verbatim>\<open>"1111112"\<close> with nothing left
  to read, which the scheme that resets the cursor to zero on a mismatch does not find.
\<close>

theorem findMulti_first_match:
  "((\<forall>p\<in>set ps. p \<noteq> []) \<and> (\<exists>p\<in>set ps. sublist p (input s)) \<longrightarrow>
      (\<exists>n i. 0 < n \<and> n \<le> length (input s) \<and> i < length ps
          \<and> suffix (ps ! i) (take n (input s))
          \<and> (\<forall>m<n. \<forall>p\<in>set ps. \<not> suffix p (take m (input s)))
          \<and> (\<forall>j<i. \<not> suffix (ps ! j) (take n (input s)))
          \<and> fst (findMulti (map target ps) s) = int i
          \<and> input (snd (findMulti (map target ps) s)) = drop n (input s)))
   \<and> fst (findMulti [target (bytes ''1112'')] (stream_of ''1111112'')) = 0
   \<and> input (snd (findMulti [target (bytes ''1112'')] (stream_of ''1111112''))) = []
   \<and> \<not> reset_scan (bytes ''1112'') 0 (bytes ''1111112'')"
proof (intro conjI impI)
  assume "(\<forall>p\<in>set ps. p \<noteq> []) \<and> (\<exists>p\<in>set ps. sublist p (input s))"
  then show "\<exists>n i. 0 < n \<and> n \<le> length (input s) \<and> i < length ps
          \<and> suffix (ps ! i) (take n (input s))
          \<and> (\<forall>m<n. \<forall>p\<in>set ps. \<not> suffix p (take m (input s)))
          \<and> (\<forall>j<i. \<not> suffix (ps ! j) (take n (input s)))
          \<and> fst (findMulti (map target ps) s) = int i
          \<and> input (snd (findMulti (map target ps) s)) = drop n (input s)"
    using first_match_general[of ps s] by blast
next
  show "fst (findMulti [target (bytes ''1112'')] (stream_of ''1111112'')) = 0"
    by code_simp
next
  show "input (snd (findMulti [target (bytes ''1112'')] (stream_of ''1111112''))) = []"
    by code_simp
next
  show "\<not> reset_scan (bytes ''1112'') 0 (bytes ''1111112'')"
    by code_simp
qed

lemma sublist_example: "sublist (bytes ''ab'') (bytes ''xxaabxx'')"
  unfolding sublist_def by (intro exI[of _ "bytes ''xxa''"] exI[of _ "bytes ''xx''"]) (simp add: bytes_def)

theorem findMulti_first_match_witness:
  "bytes ''ab'' \<noteq> [] \<and> bytes ''b'' \<noteq> [] \<and> sublist (bytes ''ab'') (bytes ''xxaabxx'')
   \<and> fst (findMulti [target (bytes ''ab''), target (bytes ''b'')] (stream_of ''xxaabxx'')) = 0
   \<and> input (snd (findMulti [target (bytes ''ab''), target (bytes ''b'')] (stream_of ''xxaabxx'')))
        = bytes ''xx''"
proof -
  let ?ps = "[bytes ''ab'', bytes ''b'']" and ?s = "stream_of ''xxaabxx''"
  have h: "(\<forall>p\<in>set ?ps. p \<noteq> []) \<and> (\<exists>p\<in>set ?ps. sublist p (input ?s))"
    using sublist_example by (simp add: bytes_def stream_of_def)
  obtain n i where r: "0 < n" "n \<le> length (input ?s)" "i < length ?ps"
      "suffix (?ps ! i) (take n (input ?s))"
      "\<forall>m<n. \<forall>p\<in>set ?ps. \<not> suffix p (take m (input ?s))"
      "\<forall>j<i. \<not> suffix (?ps ! j) (take n (input ?s))"
      "fst (findMulti (map target ?ps) ?s) = int i"
      "input (snd (findMulti (map target ?ps) ?s)) = drop n (input ?s)"
    using findMulti_first_match[of ?ps ?s] h by blast
  have "fst (findMulti (map target ?ps) ?s) = 0" by code_simp
  moreover have "input (snd (findMulti (map target ?ps) ?s)) = bytes ''xx''" by code_simp
  ultimately show ?thesis using h sublist_example by (simp add: bytes_def)
qed

lemma no_sublist_example: "\<not> sublist (bytes ''test'') (bytes ''This is a string'')"
  by code_simp

theorem findMulti_no_occurrence_witness:
  "bytes ''test'' \<noteq> [] \<and> \<not> sublist (bytes ''test'') (bytes ''This is a string'')
   \<and> fst (findMulti [target (bytes ''test'')] (stream_of ''This is a string'')) = - 1
   \<and> input (snd (findMulti [target (bytes ''test'')] (stream_of ''This is a string''))) = []
   \<and> \<not> fst (find_target (bytes ''test'') (stream_of ''This is a string''))"
  using findMulti_no_occurrence[of "[bytes ''test'']" "stream_of ''This is a string''"
      "bytes ''test''"] no_sublist_example
  by (simp add: stream_of_def) (simp add: bytes_def)

theorem findMulti_zero_length_witness:
  "len (target []) = 0
   \<and> findMulti [target (bytes ''ab''), target [], target []] (stream_of ''xyz'')
       = (1, stream_of ''xyz'')"
  using findMulti_zero_length[of "[target (bytes ''ab''), target [], target []]" "stream_of ''xyz''"]
  by (auto simp: target_def bytes_def less_Suc_eq numeral_3_eq_3)

section \<open>The lookahead and the scanning loops on the waiting bytes\<close>

lemma uint_byte_simps:
  fixes y :: byte
  shows "(uint y = 45) = (y = 45)" "(uint y = 46) = (y = 46)"
    "(uint y = 32) = (y = 32)" "(uint y = 9) = (y = 9)"
    "(uint y = 13) = (y = 13)" "(uint y = 10) = (y = 10)"
    "(48 \<le> uint y \<and> uint y \<le> 57) = is_digit y"
    "\<not> uint y < 0" "(word_of_int (uint y) :: byte) = y"
  by (simp_all add: word_uint_eq_iff is_digit_def word_le_def)

lemma input_read: "input (snd (read s)) = tl (input s)"
  by (cases "input s") (simp_all add: read_def)

lemma pnd_unfold:
  "peekNextDigit lookahead detectDecimal s =
     (if fst (timedPeek s) < 0 \<or> fst (timedPeek s) = 45
         \<or> (fst (timedPeek s) \<ge> 48 \<and> fst (timedPeek s) \<le> 57)
         \<or> (detectDecimal \<and> fst (timedPeek s) = 46)
      then timedPeek s
      else case lookahead of
             SKIP_NONE \<Rightarrow> (- 1, snd (timedPeek s))
           | SKIP_WHITESPACE \<Rightarrow>
               (if fst (timedPeek s) = 32 \<or> fst (timedPeek s) = 9
                   \<or> fst (timedPeek s) = 13 \<or> fst (timedPeek s) = 10
                then peekNextDigit lookahead detectDecimal (snd (read (snd (timedPeek s))))
                else (- 1, snd (timedPeek s)))
           | SKIP_ALL \<Rightarrow> peekNextDigit lookahead detectDecimal (snd (read (snd (timedPeek s)))))"
  by (subst peekNextDigit.simps) (simp add: split_def Let_def split: LookaheadMode.splits)

lemma pnd_Nil:
  "input s = [] \<Longrightarrow> fst (peekNextDigit l d s) = - 1 \<and> input (snd (peekNextDigit l d s)) = []"
  by (subst (1 2) pnd_unfold) (simp add: fst_timedPeek input_timedPeek)

lemma pnd_start:
  "input s = b # bs \<Longrightarrow> starts d b \<Longrightarrow>
   fst (peekNextDigit l d s) = uint b \<and> input (snd (peekNextDigit l d s)) = b # bs"
  by (subst (1 2) pnd_unfold)
     (auto simp: fst_timedPeek input_timedPeek starts_def uint_byte_simps)

lemma pnd_reject:
  "input s = b # bs \<Longrightarrow> \<not> starts d b \<Longrightarrow> \<not> skipped l b \<Longrightarrow>
   fst (peekNextDigit l d s) = - 1 \<and> input (snd (peekNextDigit l d s)) = b # bs"
  by (subst (1 2) pnd_unfold)
     (auto simp: fst_timedPeek input_timedPeek starts_def skipped_def uint_byte_simps
           split: LookaheadMode.splits)

lemma pnd_skip:
  "input s = b # bs \<Longrightarrow> \<not> starts d b \<Longrightarrow> skipped l b \<Longrightarrow>
   peekNextDigit l d s = peekNextDigit l d (snd (read (snd (timedPeek s))))
   \<and> input (snd (read (snd (timedPeek s)))) = bs"
  by (subst pnd_unfold)
     (auto simp: fst_timedPeek input_timedPeek input_read starts_def skipped_def uint_byte_simps
           split: LookaheadMode.splits)

lemma pnd_junk:
  "input s = junk @ ys \<Longrightarrow> \<forall>y\<in>set junk. \<not> starts d y \<and> skipped l y \<Longrightarrow>
   \<exists>s1. peekNextDigit l d s = peekNextDigit l d s1 \<and> input s1 = ys"
proof (induction junk arbitrary: s)
  case Nil
  then show ?case by auto
next
  case (Cons b junk)
  let ?s1 = "snd (read (snd (timedPeek s)))"
  have "peekNextDigit l d s = peekNextDigit l d ?s1" "input ?s1 = junk @ ys"
    using pnd_skip[of s b "junk @ ys" d l] Cons.prems by simp_all
  moreover obtain s2 where "peekNextDigit l d ?s1 = peekNextDigit l d s2" "input s2 = ys"
    using Cons.IH[of ?s1] Cons.prems(2) \<open>input ?s1 = junk @ ys\<close> by auto
  ultimately show ?case by auto
qed

lemma peek_after_read:
  assumes "input s = b # ys"
  shows "fst (timedPeek (snd (read s))) = (case ys of [] \<Rightarrow> - 1 | y # _ \<Rightarrow> uint y)"
    and "input (snd (timedPeek (snd (read s)))) = ys"
  using assms by (simp_all add: fst_timedPeek input_timedPeek input_read)

lemma parseInt_loop_run:
  assumes "input s = b # ys"
    and "snd (int_run ig (parseInt_accum ig (uint b) acc) ys) \<noteq> [] \<or> ig \<noteq> 255"
  shows "\<exists>s'. parseInt_loop ig (uint b) acc s
            = Some (fst (int_run ig (parseInt_accum ig (uint b) acc) ys), s')
          \<and> input s' = snd (int_run ig (parseInt_accum ig (uint b) acc) ys)"
  using assms
proof (induction ys arbitrary: b acc s)
  case Nil
  have "(- 1 :: byte) = 255" by simp
  then have "- 1 \<noteq> ig" using Nil.prems(2) by auto
  then show ?case
    using peek_after_read[OF Nil.prems(1)]
    by (subst parseInt_loop.simps) (simp add: split_def Let_def)
next
  case (Cons y ys)
  let ?acc1 = "parseInt_accum ig (uint b) acc"
  let ?s2 = "snd (timedPeek (snd (read s)))"
  have pk: "fst (timedPeek (snd (read s))) = uint y" "input ?s2 = y # ys"
    using peek_after_read[OF Cons.prems(1)] by simp_all
  show ?case
  proof (cases "is_digit y \<or> y = ig")
    case True
    have st: "parseInt_loop ig (uint b) acc s = parseInt_loop ig (uint y) ?acc1 ?s2"
      using True pk(1)
      by (subst parseInt_loop.simps) (auto simp: split_def Let_def uint_byte_simps)
    have "snd (int_run ig (parseInt_accum ig (uint y) ?acc1) ys) \<noteq> [] \<or> ig \<noteq> 255"
      using Cons.prems(2) True by simp
    from Cons.IH[OF pk(2) this] show ?thesis using st True by simp
  next
    case False
    have "parseInt_loop ig (uint b) acc s = Some (?acc1, ?s2)"
      using False pk(1)
      by (subst parseInt_loop.simps) (auto simp: split_def Let_def uint_byte_simps)
    then show ?thesis using False pk(2) by simp
  qed
qed

lemma parseFloat_loop_run:
  assumes "input s = b # ys"
    and "snd (float_run F ig (parseFloat_accum F ig (uint b) acc) ys) \<noteq> [] \<or> ig \<noteq> 255"
  shows "\<exists>s'. parseFloat_loop F ig (uint b) acc s
            = Some (fst (float_run F ig (parseFloat_accum F ig (uint b) acc) ys), s')
          \<and> input s' = snd (float_run F ig (parseFloat_accum F ig (uint b) acc) ys)"
  using assms
proof (induction ys arbitrary: b acc s)
  case Nil
  have "(- 1 :: byte) = 255" by simp
  then have "- 1 \<noteq> ig" using Nil.prems(2) by auto
  then show ?case
    using peek_after_read[OF Nil.prems(1)]
    by (subst parseFloat_loop.simps) (simp add: split_def Let_def)
next
  case (Cons y ys)
  let ?acc1 = "parseFloat_accum F ig (uint b) acc"
  let ?s2 = "snd (timedPeek (snd (read s)))"
  have pk: "fst (timedPeek (snd (read s))) = uint y" "input ?s2 = y # ys"
    using peek_after_read[OF Cons.prems(1)] by simp_all
  show ?case
  proof (cases "is_digit y \<or> (y = 46 \<and> \<not> fst (snd ?acc1)) \<or> y = ig")
    case True
    have st: "parseFloat_loop F ig (uint b) acc s = parseFloat_loop F ig (uint y) ?acc1 ?s2"
      using True pk(1)
      by (subst parseFloat_loop.simps) (auto simp: split_def Let_def uint_byte_simps)
    have "snd (float_run F ig (parseFloat_accum F ig (uint y) ?acc1) ys) \<noteq> [] \<or> ig \<noteq> 255"
      using Cons.prems(2) True by auto
    from Cons.IH[OF pk(2) this] show ?thesis using st True by auto
  next
    case False
    have "parseFloat_loop F ig (uint b) acc s = Some (?acc1, ?s2)"
      using False pk(1)
      by (subst parseFloat_loop.simps) (auto simp: split_def Let_def uint_byte_simps)
    then show ?thesis using False pk(2) by auto
  qed
qed

lemma not_digit_45: "\<not> is_digit 45" "\<not> is_digit 46"
  by (simp_all add: is_digit_def)

lemma parseInt_accum_byte:
  "parseInt_accum ig (uint y) (neg, word_of_int n) =
     (if y = ig then (neg, word_of_int n)
      else if y = 45 then (True, word_of_int n)
      else if is_digit y then (neg, word_of_int (n * 10 + (uint y - 48)))
      else (neg, word_of_int n))"
  by (simp add: parseInt_accum_def uint_byte_simps)

lemma accum_fold:
  "foldl (\<lambda>a y. parseInt_accum ig (uint y) a) (neg, word_of_int n) bs =
     (neg \<or> 45 \<in> set (filter (\<lambda>y. y \<noteq> ig) bs),
      word_of_int (decimal_from n (filter is_digit (filter (\<lambda>y. y \<noteq> ig) bs))))"
proof (induction bs arbitrary: neg n)
  case Nil
  then show ?case by (simp add: decimal_from_def)
next
  case (Cons y bs)
  show ?case
    using Cons.IH[of neg n] Cons.IH[of True n] Cons.IH[of neg "n * 10 + (uint y - 48)"]
    by (simp only: foldl_Cons parseInt_accum_byte)
       (auto simp: decimal_from_def not_digit_45)
qed

lemma int_run_token:
  "\<forall>y\<in>set tok. is_digit y \<or> y = ig \<Longrightarrow> \<not> is_digit x \<Longrightarrow> x \<noteq> ig \<Longrightarrow>
   int_run ig acc (tok @ x # rest) = (foldl (\<lambda>a y. parseInt_accum ig (uint y) a) acc tok, x # rest)"
  by (induction tok arbitrary: acc) auto

lemma parseInt_started:
  assumes "input s = junk @ b # ys" and "\<forall>y\<in>set junk. \<not> starts False y \<and> skipped l y"
    and "starts False b"
    and "snd (int_run ig (parseInt_accum ig (uint b) (False, 0 :: 'l::len word)) ys) \<noteq> [] \<or> ig \<noteq> 255"
  shows "\<exists>s'. parseInt l ig s
           = Some (let (neg, v) = fst (int_run ig (parseInt_accum ig (uint b) (False, 0 :: 'l::len word)) ys)
                   in if neg then - v else v, s')
         \<and> input s' = snd (int_run ig (parseInt_accum ig (uint b) (False, 0 :: 'l::len word)) ys)"
proof -
  obtain s1 where s1: "peekNextDigit l False s = peekNextDigit l False s1" "input s1 = b # ys"
    using pnd_junk[OF assms(1,2)] by blast
  let ?p = "peekNextDigit l False s"
  have p: "fst ?p = uint b" "input (snd ?p) = b # ys"
    using pnd_start[OF s1(2) assms(3), of l] s1(1) by simp_all
  obtain s' where r: "parseInt_loop ig (uint b) (False, 0 :: 'l::len word) (snd ?p)
            = Some (fst (int_run ig (parseInt_accum ig (uint b) (False, 0 :: 'l::len word)) ys), s')"
      "input s' = snd (int_run ig (parseInt_accum ig (uint b) (False, 0 :: 'l::len word)) ys)"
    using parseInt_loop_run[OF p(2) assms(4)] by blast
  have "parseInt l ig s
           = Some (let (neg, v) = fst (int_run ig (parseInt_accum ig (uint b) (False, 0 :: 'l::len word)) ys)
                   in if neg then - v else v, s')"
    using p(1) r(1) by (simp add: parseInt_def split_def Let_def uint_byte_simps)
  then show ?thesis using r(2) by blast
qed

lemma parseInt_token:
  assumes "input s = junk @ b # tok @ x # rest"
    and "\<forall>y\<in>set junk. \<not> starts False y \<and> skipped l y"
    and "starts False b"
    and "\<forall>y\<in>set tok. is_digit y \<or> y = ig" and "\<not> is_digit x" and "x \<noteq> ig"
  shows "\<exists>s'. parseInt l ig s = Some (word_of_int (int_value ig (b # tok)) :: 'l::len word, s')
         \<and> input s' = x # rest"
proof -
  let ?acc = "parseInt_accum ig (uint b) (False, 0 :: 'l::len word)"
  have run: "int_run ig ?acc (tok @ x # rest)
      = (foldl (\<lambda>a y. parseInt_accum ig (uint y) a) ?acc tok, x # rest)"
    by (rule int_run_token[OF assms(4,5,6)])
  have "foldl (\<lambda>a y. parseInt_accum ig (uint y) a) ?acc tok
      = foldl (\<lambda>a y. parseInt_accum ig (uint y) a) (False, word_of_int 0 :: 'l word) (b # tok)"
    by simp
  also have "\<dots> = (45 \<in> set (filter (\<lambda>y. y \<noteq> ig) (b # tok)),
      word_of_int (decimal_from 0 (filter is_digit (filter (\<lambda>y. y \<noteq> ig) (b # tok)))))"
    by (simp only: accum_fold simp_thms)
  finally have f: "foldl (\<lambda>a y. parseInt_accum ig (uint y) a) ?acc tok
      = (45 \<in> set (filter (\<lambda>y. y \<noteq> ig) (b # tok)),
      word_of_int (decimal_from 0 (filter is_digit (filter (\<lambda>y. y \<noteq> ig) (b # tok)))))" .
  have "snd (int_run ig ?acc (tok @ x # rest)) \<noteq> [] \<or> ig \<noteq> 255" using run by simp
  from parseInt_started[OF assms(1,2,3) this]
  obtain s' where "parseInt l ig s
           = Some (let (neg, v) = fst (int_run ig ?acc (tok @ x # rest))
                   in if neg then - v else v, s')"
     "input s' = snd (int_run ig ?acc (tok @ x # rest))" by blast
  then have "parseInt l ig s = Some (word_of_int (int_value ig (b # tok)) :: 'l::len word, s')"
      "input s' = x # rest"
    unfolding run f by (simp_all add: int_value_def Let_def)
  then show ?thesis by blast
qed

lemma parseFloat_started:
  assumes "input s = junk @ b # ys" and "\<forall>y\<in>set junk. \<not> starts True y \<and> skipped l y"
    and "starts True b"
    and "snd (float_run F ig (parseFloat_accum F ig (uint b) (False, False, dlit F 0, dlit F 1)) ys) \<noteq> []
         \<or> ig \<noteq> 255"
  shows "\<exists>s'. parseFloat F l ig s
           = Some (let (neg, fr, v, f) =
                         fst (float_run F ig
                               (parseFloat_accum F ig (uint b) (False, False, dlit F 0, dlit F 1)) ys)
                   in narrow F (if neg then dneg F v else v), s')
         \<and> input s' = snd (float_run F ig
                              (parseFloat_accum F ig (uint b) (False, False, dlit F 0, dlit F 1)) ys)"
proof -
  obtain s1 where s1: "peekNextDigit l True s = peekNextDigit l True s1" "input s1 = b # ys"
    using pnd_junk[OF assms(1,2)] by blast
  let ?p = "peekNextDigit l True s"
  let ?a = "parseFloat_accum F ig (uint b) (False, False, dlit F 0, dlit F 1)"
  have p: "fst ?p = uint b" "input (snd ?p) = b # ys"
    using pnd_start[OF s1(2) assms(3), of l] s1(1) by simp_all
  obtain s' where r: "parseFloat_loop F ig (uint b) (False, False, dlit F 0, dlit F 1) (snd ?p)
            = Some (fst (float_run F ig ?a ys), s')"
      "input s' = snd (float_run F ig ?a ys)"
    using parseFloat_loop_run[OF p(2) assms(4)] by blast
  have "parseFloat F l ig s
           = Some (let (neg, fr, v, f) = fst (float_run F ig ?a ys)
                   in narrow F (if neg then dneg F v else v), s')"
    using p(1) r(1) by (simp add: parseFloat_def split_def Let_def uint_byte_simps)
  then show ?thesis using r(2) by blast
qed

lemma parseFloat_accum_byte:
  "parseFloat_accum F ig (uint y) (neg, fr, v, f) =
     (if y = ig then (neg, fr, v, f)
      else if y = 45 then (True, fr, v, f)
      else if y = 46 then (neg, True, v, f)
      else if is_digit y then
        (if fr then (neg, fr, dadd F v (dmul F (dmul F f (dlit F (1 / 10)))
                                       (dlit F (of_int (uint y - 48)))),
                     dmul F f (dlit F (1 / 10)))
         else (neg, fr, dsub F (dadd F (dmul F v (dlit F 10)) (dlit F (of_int (uint y))))
                          (dlit F 48), f))
      else (neg, fr, v, f))"
  by (simp add: parseFloat_accum_def uint_byte_simps Let_def)

lemma frac_flag_accum:
  "fst (snd (parseFloat_accum F ig (uint y) acc))
     = (fst (snd acc) \<or> (y = 46 \<and> y \<noteq> ig))"
  by (cases acc) (auto simp: parseFloat_accum_byte not_digit_45)

lemma neg_flag_accum:
  "fst (parseFloat_accum F ig (uint y) acc) = (fst acc \<or> (y = 45 \<and> y \<noteq> ig))"
  by (cases acc) (auto simp: parseFloat_accum_byte)

lemma frac_flag_fold:
  fixes tok :: "byte list"
  shows "fst (snd (foldl (\<lambda>a y. parseFloat_accum F ig (uint y) a) acc tok))
     = (fst (snd acc) \<or> (46 \<in> set tok \<and> ig \<noteq> 46))"
  by (induction tok arbitrary: acc) (auto simp: frac_flag_accum)

lemma neg_flag_fold:
  fixes tok :: "byte list"
  shows "fst (foldl (\<lambda>a y. parseFloat_accum F ig (uint y) a) acc tok)
     = (fst acc \<or> (45 \<in> set tok \<and> ig \<noteq> 45))"
  by (induction tok arbitrary: acc) (auto simp: neg_flag_accum)

lemma float_run_digits:
  assumes "\<forall>y\<in>set tok. is_digit y \<or> y = ig"
  shows "float_run F ig acc (tok @ rest)
       = float_run F ig (foldl (\<lambda>a y. parseFloat_accum F ig (uint y) a) acc tok) rest"
  using assms by (induction tok arbitrary: acc) auto

lemma float_run_stop:
  assumes "\<not> is_digit x" "x \<noteq> ig" "x = 46 \<longrightarrow> fst (snd acc)"
  shows "float_run F ig acc (x # rest) = (acc, x # rest)"
  using assms by auto

lemma float_run_point:
  assumes "\<not> fst (snd acc)"
  shows "float_run F ig acc (46 # rest)
       = float_run F ig (parseFloat_accum F ig (uint (46 :: byte)) acc) rest"
  using assms by simp

lemma float_run_token_plain:
  assumes "\<forall>y\<in>set tok. is_digit y \<or> y = ig" "\<not> is_digit x" "x \<noteq> ig"
    and "x = 46 \<longrightarrow> fst (snd acc) \<or> ig = 46"
  shows "float_run F ig acc (tok @ x # rest)
       = (foldl (\<lambda>a y. parseFloat_accum F ig (uint y) a) acc tok, x # rest)"
proof -
  let ?a = "foldl (\<lambda>a y. parseFloat_accum F ig (uint y) a) acc tok"
  have "x = 46 \<longrightarrow> fst (snd ?a)" using assms(3,4) by (auto simp: frac_flag_fold)
  then show ?thesis
    using float_run_digits[OF assms(1), of F acc "x # rest"] float_run_stop[OF assms(2,3), of ?a F rest]
    by simp
qed

lemma float_run_token_point:
  assumes "\<forall>y\<in>set t1. is_digit y \<or> y = ig" "\<forall>y\<in>set t2. is_digit y \<or> y = ig"
    and "\<not> is_digit x" "x \<noteq> ig" "ig \<noteq> 46" "\<not> fst (snd acc)"
  shows "float_run F ig acc (t1 @ 46 # t2 @ x # rest)
       = (foldl (\<lambda>a y. parseFloat_accum F ig (uint y) a) acc (t1 @ 46 # t2), x # rest)"
proof -
  let ?f = "\<lambda>a y. parseFloat_accum F ig (uint y) a"
  let ?a1 = "foldl ?f acc t1"
  have n46: "46 \<notin> set t1" using assms(1,5) not_digit_45 by auto
  have nf: "\<not> fst (snd ?a1)" using assms(6) n46 by (simp add: frac_flag_fold)
  let ?a2 = "parseFloat_accum F ig (uint (46 :: byte)) ?a1"
  have fr: "fst (snd ?a2)" using assms(5) frac_flag_accum[of F ig 46 ?a1] by simp
  have "float_run F ig acc (t1 @ 46 # t2 @ x # rest) = float_run F ig ?a1 (46 # t2 @ x # rest)"
    by (rule float_run_digits[OF assms(1)])
  also have "\<dots> = float_run F ig ?a2 (t2 @ x # rest)"
    by (rule float_run_point[OF nf])
  also have "\<dots> = (foldl ?f ?a2 t2, x # rest)"
    using fr by (intro float_run_token_plain[OF assms(2,3,4)]) simp
  also have "foldl ?f ?a2 t2 = foldl ?f acc (t1 @ 46 # t2)" by simp
  finally show ?thesis .
qed

lemma decimal_from_Cons: "decimal_from n (d # ds) = decimal_from (n * 10 + (uint d - 48)) ds"
  by (simp add: decimal_from_def)

lemma float_token_point:
  assumes "sg = [] \<or> sg = [45]" "\<forall>y\<in>set ds1. is_digit y" "\<forall>y\<in>set ds2. is_digit y"
    and "\<not> is_digit x" "x \<noteq> ig" "ig \<notin> set (sg @ ds1 @ 46 # ds2)"
    and "sg @ ds1 @ 46 # ds2 = b # tok" "\<not> fst (snd init)"
  shows "float_run F ig (parseFloat_accum F ig (uint b) init) (tok @ x # rest)
       = (foldl (\<lambda>a y. parseFloat_accum F ig (uint y) a) init (b # tok), x # rest)"
proof -
  let ?f = "\<lambda>a y. parseFloat_accum F ig (uint y) a"
  let ?a = "parseFloat_accum F ig (uint b) init"
  have ig46: "ig \<noteq> 46" using assms(6) by auto
  have d2: "\<forall>y\<in>set ds2. is_digit y \<or> y = ig" using assms(3) by simp
  consider (minus) "b = 45" "tok = ds1 @ 46 # ds2"
    | (digit) ds where "ds1 = b # ds" "tok = ds @ 46 # ds2"
    | (point) "b = 46" "tok = ds2" "ds1 = []"
    using assms(1,7) by (cases ds1) auto
  then have "float_run F ig ?a (tok @ x # rest) = (foldl ?f ?a tok, x # rest)"
  proof cases
    case minus
    have nf: "\<not> fst (snd ?a)" using assms(8) minus(1) frac_flag_accum[of F ig b init] by simp
    have d1: "\<forall>y\<in>set ds1. is_digit y \<or> y = ig" using assms(2) by simp
    show ?thesis
      using float_run_token_point[OF d1 d2 assms(4,5) ig46 nf, of F rest] minus(2) by simp
  next
    case digit
    have "b \<noteq> 46" using assms(2) digit(1) not_digit_45 by auto
    then have nf: "\<not> fst (snd ?a)" using assms(8) frac_flag_accum[of F ig b init] by simp
    have d1: "\<forall>y\<in>set ds. is_digit y \<or> y = ig" using assms(2) digit(1) by simp
    show ?thesis
      using float_run_token_point[OF d1 d2 assms(4,5) ig46 nf, of F rest] digit(2) by simp
  next
    case point
    have fr: "fst (snd ?a)" using point(1) ig46 frac_flag_accum[of F ig b init] by simp
    show ?thesis
      using float_run_token_plain[OF d2 assms(4,5), of ?a F rest] fr point(2) by simp
  qed
  then show ?thesis by simp
qed

lemma float_token_plain:
  assumes "sg = [] \<or> sg = [45]" "\<forall>y\<in>set ds. is_digit y" "ds \<noteq> []"
    and "\<not> is_digit x" "x \<noteq> ig" "x \<noteq> 46"
    and "sg @ ds = b # tok"
  shows "float_run F ig (parseFloat_accum F ig (uint b) init) (tok @ x # rest)
       = (foldl (\<lambda>a y. parseFloat_accum F ig (uint y) a) init (b # tok), x # rest)"
proof -
  have "set tok \<subseteq> set ds" using assms(1,3,7) by (cases ds) auto
  then have d: "\<forall>y\<in>set tok. is_digit y \<or> y = ig" using assms(2) by auto
  show ?thesis
    using float_run_token_plain[OF d assms(4,5), of "parseFloat_accum F ig (uint b) init" F rest]
      assms(6) by simp
qed

lemma token_head:
  assumes "sg = [] \<or> sg = [45]" "\<forall>y\<in>set ds. is_digit y" "ds \<noteq> [] \<or> pt"
  shows "\<exists>b tok. sg @ ds @ (if pt then 46 # dd else []) = b # tok \<and> starts pt b"
  using assms by (cases sg; cases ds) (auto simp: starts_def)

lemma dropWhile_head: "dropWhile P xs = b # ys \<Longrightarrow> \<not> P b"
  by (induction xs) (auto split: if_splits)

lemma pnd_total:
  fixes s :: "'w::len word stream"
  shows "input (snd (peekNextDigit l d s))
           = dropWhile (\<lambda>y. \<not> starts d y \<and> skipped l y) (input s)
       \<and> fst (peekNextDigit l d s)
           = (case dropWhile (\<lambda>y. \<not> starts d y \<and> skipped l y) (input s) of [] \<Rightarrow> - 1
              | b # _ \<Rightarrow> if starts d b then uint b else - 1)"
proof -
  define P where "P = (\<lambda>y. \<not> starts d y \<and> skipped l y)"
  define junk where "junk = takeWhile P (input s)"
  define rest0 where "rest0 = dropWhile P (input s)"
  have j: "\<forall>y\<in>set junk. \<not> starts d y \<and> skipped l y"
    using set_takeWhileD[of _ P "input s"] unfolding junk_def P_def by blast
  have i: "input s = junk @ rest0" unfolding junk_def rest0_def by simp
  obtain s1 where s1: "peekNextDigit l d s = peekNextDigit l d s1" "input s1 = rest0"
    using pnd_junk[OF i j] by blast
  have "input (snd (peekNextDigit l d s1)) = rest0
       \<and> fst (peekNextDigit l d s1)
           = (case rest0 of [] \<Rightarrow> - 1 | b # _ \<Rightarrow> if starts d b then uint b else - 1)"
  proof (cases rest0)
    case Nil
    then show ?thesis using pnd_Nil[of s1 l d] s1(2) by simp
  next
    case (Cons b ys)
    have nb: "\<not> P b" using Cons dropWhile_head[of P "input s" b ys] unfolding rest0_def by simp
    have i1: "input s1 = b # ys" using s1(2) Cons by simp
    show ?thesis
    proof (cases "starts d b")
      case True
      then show ?thesis using pnd_start[OF i1 True, of l] Cons by simp
    next
      case False
      then have "\<not> skipped l b" using nb by (simp add: P_def)
      then show ?thesis using False pnd_reject[OF i1 False, of l] Cons by simp
    qed
  qed
  then show ?thesis unfolding s1(1) rest0_def P_def .
qed

lemma int_run_takeWhile:
  "int_run ig acc ys
     = (foldl (\<lambda>a y. parseInt_accum ig (uint y) a) acc (takeWhile (\<lambda>y. is_digit y \<or> y = ig) ys),
        dropWhile (\<lambda>y. is_digit y \<or> y = ig) ys)"
  by (induction ys arbitrary: acc) auto

lemma filter_digit_not_minus: "filter is_digit (filter (\<lambda>y. y \<noteq> 45) xs) = filter is_digit xs"
  by (induction xs) (auto simp: not_digit_45)

lemma parseInt_ignore_minus_general:
  fixes s :: "'w::len word stream"
  shows "\<exists>s' consumed. parseInt l 45 s
            = Some (word_of_int (decimal_from 0 (filter is_digit consumed)) :: 'l::len word, s')
         \<and> input s = consumed @ input s'"
proof -
  define P where "P = (\<lambda>y. \<not> starts False y \<and> skipped l y)"
  define Q where "Q = (\<lambda>y::byte. is_digit y \<or> y = 45)"
  let ?junk = "takeWhile P (input s)"
  let ?p = "peekNextDigit l False s"
  have pt: "input (snd ?p) = dropWhile P (input s)"
      "fst ?p = (case dropWhile P (input s) of [] \<Rightarrow> - 1
              | b # _ \<Rightarrow> if starts False b then uint b else - 1)"
    using pnd_total[of l False s] unfolding P_def by simp_all
  have jd: "filter is_digit ?junk = []"
  proof -
    have "\<forall>y\<in>set ?junk. \<not> is_digit y"
    proof
      fix y assume "y \<in> set ?junk"
      then have "P y" by (rule set_takeWhileD[THEN conjunct2])
      then show "\<not> is_digit y" unfolding P_def starts_def by blast
    qed
    then show ?thesis by (simp add: filter_empty_conv)
  qed
  have fail: ?thesis if "fst ?p < 0"
  proof -
    have "parseInt l 45 s = Some (0 :: 'l word, snd ?p)"
      using that by (simp add: parseInt_def split_def)
    moreover have "input s = ?junk @ input (snd ?p)" unfolding pt(1) by simp
    moreover have "(0 :: 'l word) = word_of_int (decimal_from 0 (filter is_digit ?junk))"
      unfolding jd by (simp add: decimal_from_def)
    ultimately have "parseInt l 45 s
            = Some (word_of_int (decimal_from 0 (filter is_digit ?junk)) :: 'l word, snd ?p)
         \<and> input s = ?junk @ input (snd ?p)" by (simp only: simp_thms)
    then show ?thesis by (intro exI[of _ "snd ?p"] exI[of _ ?junk])
  qed
  show ?thesis
  proof (cases "dropWhile P (input s)")
    case Nil
    have "fst ?p < 0" unfolding pt(2) Nil by simp
    then show ?thesis by (rule fail)
  next
    case (Cons b ys)
    show ?thesis
    proof (cases "starts False b")
      case False
      have "fst ?p < 0" unfolding pt(2) Cons using False by simp
      then show ?thesis by (rule fail)
    next
      case True
      let ?tok = "takeWhile Q ys"
      let ?a = "parseInt_accum 45 (uint b) (False, 0 :: 'l word)"
      have "input s = ?junk @ dropWhile P (input s)" by simp
      then have inp: "input s = ?junk @ b # ys" unfolding Cons .
      have j: "\<forall>y\<in>set ?junk. \<not> starts False y \<and> skipped l y"
      proof
        fix y assume "y \<in> set ?junk"
        then have "P y" by (rule set_takeWhileD[THEN conjunct2])
        then show "\<not> starts False y \<and> skipped l y" unfolding P_def .
      qed
      have ne: "snd (int_run 45 ?a ys) \<noteq> [] \<or> (45 :: byte) \<noteq> 255" by simp
      obtain s' where r: "parseInt l 45 s
           = Some (let (neg, v) = fst (int_run 45 ?a ys) in if neg then - v else v, s')"
         "input s' = snd (int_run 45 ?a ys)"
        using parseInt_started[OF inp j True ne] by blast
      have run: "int_run 45 ?a ys
          = (foldl (\<lambda>a y. parseInt_accum 45 (uint y) a) ?a ?tok, dropWhile Q ys)"
        unfolding Q_def by (rule int_run_takeWhile)
      have "foldl (\<lambda>a y. parseInt_accum 45 (uint y) a) ?a ?tok
          = foldl (\<lambda>a y. parseInt_accum 45 (uint y) a) (False, word_of_int 0 :: 'l word) (b # ?tok)"
        by simp
      also have "\<dots> = (False \<or> 45 \<in> set (filter (\<lambda>y. y \<noteq> 45) (b # ?tok)),
          word_of_int (decimal_from 0 (filter is_digit (filter (\<lambda>y. y \<noteq> 45) (b # ?tok)))))"
        by (rule accum_fold)
      also have "\<dots> = (False, word_of_int (decimal_from 0 (filter is_digit (b # ?tok))))"
        by (simp only: filter_digit_not_minus) simp
      finally have f: "foldl (\<lambda>a y. parseInt_accum 45 (uint y) a) ?a ?tok
          = (False, word_of_int (decimal_from 0 (filter is_digit (b # ?tok))))" .
      have v: "parseInt l 45 s
           = Some (word_of_int (decimal_from 0 (filter is_digit (b # ?tok))) :: 'l word, s')"
        using r(1) unfolding run f by simp
      have "input s' = dropWhile Q ys" using r(2) unfolding run by simp
      then have "(?junk @ b # ?tok) @ input s' = ?junk @ b # ys" by simp
      then have c: "input s = (?junk @ b # ?tok) @ input s'" using inp by (simp only:)
      have "filter is_digit (?junk @ b # ?tok) = filter is_digit (b # ?tok)"
        unfolding filter_append jd by simp
      then have "parseInt l 45 s
           = Some (word_of_int (decimal_from 0 (filter is_digit (?junk @ b # ?tok))) :: 'l word, s')"
        using v by (simp only:)
      then show ?thesis using c by (intro exI[of _ s'] exI[of _ "?junk @ b # ?tok"] conjI)
    qed
  qed
qed

lemma is_digit_uint: "is_digit y \<Longrightarrow> 48 \<le> uint y"
  by (simp add: is_digit_def word_le_def)

lemma parseFloat_token_any:
  assumes inp: "input s = junk @ b # tok @ x # rest"
    and junk: "\<forall>y\<in>set junk. \<not> starts True y \<and> skipped l y"
    and st: "starts True b"
    and run: "float_run F ig (parseFloat_accum F ig (uint b) (False, False, dlit F 0, dlit F 1))
                (tok @ x # rest)
              = (foldl (\<lambda>a y. parseFloat_accum F ig (uint y) a)
                   (False, False, dlit F 0, dlit F 1) (b # tok), x # rest)"
    and ig: "ig \<notin> set (b # tok)"
  shows "\<exists>s'. parseFloat F l ig s
           = Some (narrow F (if 45 \<in> set (b # tok) then dneg F (accumulated F ig (b # tok))
                             else accumulated F ig (b # tok)), s')
         \<and> input s' = x # rest"
proof -
  let ?f = "\<lambda>a y. parseFloat_accum F ig (uint y) a"
  let ?init = "(False, False, dlit F 0, dlit F 1)"
  have "snd (float_run F ig (?f ?init b) (tok @ x # rest)) \<noteq> [] \<or> ig \<noteq> 255"
    using run by simp
  from parseFloat_started[OF inp junk st this]
  obtain s' where r: "parseFloat F l ig s
           = Some (let (neg, fr, v, f) = fst (float_run F ig (?f ?init b) (tok @ x # rest))
                   in narrow F (if neg then dneg F v else v), s')"
     "input s' = snd (float_run F ig (?f ?init b) (tok @ x # rest))" by blast
  have n: "fst (foldl ?f ?init (b # tok)) = (45 \<in> set (b # tok))"
    using ig neg_flag_fold[of F ig ?init "b # tok"] by auto
  obtain neg fr v f where e: "foldl ?f ?init (b # tok) = (neg, fr, v, f)"
    by (cases "foldl ?f ?init (b # tok)") auto
  have "neg = (45 \<in> set (b # tok))" "v = accumulated F ig (b # tok)"
    using n e by (simp_all add: accumulated_def)
  then have "parseFloat F l ig s
           = Some (narrow F (if 45 \<in> set (b # tok) then dneg F (accumulated F ig (b # tok))
                             else accumulated F ig (b # tok)), s')"
    using r(1) unfolding run fst_conv e by simp
  moreover have "input s' = x # rest" using r(2) unfolding run by simp
  ultimately show ?thesis by blast
qed

lemma minus_in_token:
  assumes "sg = [] \<or> sg = [45]" "\<forall>y\<in>set ds. is_digit y" "\<forall>y\<in>set ds2. is_digit y"
  shows "45 \<in> set (sg @ ds) \<longleftrightarrow> sg \<noteq> []" "45 \<in> set (sg @ ds @ 46 # ds2) \<longleftrightarrow> sg \<noteq> []"
  using assms not_digit_45 by auto

lemma parseFloat_point_any:
  assumes "input s = junk @ sg @ ds1 @ 46 # ds2 @ x # rest"
    and "\<forall>y\<in>set junk. \<not> starts True y \<and> skipped l y"
    and "sg = [] \<or> sg = [45]" "\<forall>y\<in>set ds1. is_digit y" "\<forall>y\<in>set ds2. is_digit y"
    and "\<not> is_digit x" "x \<noteq> ig" "ig \<notin> set (sg @ ds1 @ 46 # ds2)"
  shows "\<exists>s'. parseFloat F l ig s
           = Some (narrow F (if sg = [] then accumulated F ig (sg @ ds1 @ 46 # ds2)
                             else dneg F (accumulated F ig (sg @ ds1 @ 46 # ds2))), s')
         \<and> input s' = x # rest"
proof -
  obtain b tok where bt: "sg @ ds1 @ 46 # ds2 = b # tok" "starts True b"
    using token_head[OF assms(3,4), of True ds2] by auto
  have run: "float_run F ig (parseFloat_accum F ig (uint b) (False, False, dlit F 0, dlit F 1))
                (tok @ x # rest)
       = (foldl (\<lambda>a y. parseFloat_accum F ig (uint y) a)
            (False, False, dlit F 0, dlit F 1) (b # tok), x # rest)"
    by (rule float_token_point[OF assms(3,4,5,6,7,8) bt(1)]) simp
  have inp: "input s = junk @ b # tok @ x # rest"
  proof -
    have "input s = junk @ (sg @ ds1 @ 46 # ds2) @ x # rest" using assms(1) by simp
    then show ?thesis unfolding bt(1) by simp
  qed
  have ig: "ig \<notin> set (b # tok)" using assms(8) unfolding bt(1) .
  have m: "45 \<in> set (b # tok) \<longleftrightarrow> sg \<noteq> []"
    using minus_in_token(2)[OF assms(3,4,5)] unfolding bt(1) .
  obtain s' where r: "parseFloat F l ig s
           = Some (narrow F (if 45 \<in> set (b # tok) then dneg F (accumulated F ig (b # tok))
                             else accumulated F ig (b # tok)), s')" "input s' = x # rest"
    using parseFloat_token_any[OF inp assms(2) bt(2) run ig] by blast
  have "(if 45 \<in> set (b # tok) then dneg F (accumulated F ig (b # tok))
         else accumulated F ig (b # tok))
      = (if sg = [] then accumulated F ig (b # tok) else dneg F (accumulated F ig (b # tok)))"
    unfolding m by simp
  then show ?thesis using r unfolding bt(1)[symmetric] by simp
qed

lemma parseFloat_plain_any:
  assumes "input s = junk @ sg @ ds @ x # rest"
    and "\<forall>y\<in>set junk. \<not> starts True y \<and> skipped l y"
    and "sg = [] \<or> sg = [45]" "\<forall>y\<in>set ds. is_digit y" "ds \<noteq> []"
    and "\<not> is_digit x" "x \<noteq> ig" "x \<noteq> 46" "ig \<notin> set (sg @ ds)"
  shows "\<exists>s'. parseFloat F l ig s
           = Some (narrow F (if sg = [] then accumulated F ig (sg @ ds)
                             else dneg F (accumulated F ig (sg @ ds))), s')
         \<and> input s' = x # rest"
proof -
  obtain b tok where bt: "sg @ ds = b # tok" "starts True b"
    using token_head[OF assms(3,4), of False] assms(5) by (auto simp: starts_def)
  have run: "float_run F ig (parseFloat_accum F ig (uint b) (False, False, dlit F 0, dlit F 1))
                (tok @ x # rest)
       = (foldl (\<lambda>a y. parseFloat_accum F ig (uint y) a)
            (False, False, dlit F 0, dlit F 1) (b # tok), x # rest)"
    by (rule float_token_plain[OF assms(3,4,5,6,7,8) bt(1)])
  have inp: "input s = junk @ b # tok @ x # rest"
  proof -
    have "input s = junk @ (sg @ ds) @ x # rest" using assms(1) by simp
    then show ?thesis unfolding bt(1) by simp
  qed
  have ig: "ig \<notin> set (b # tok)" using assms(9) unfolding bt(1) .
  have m: "45 \<in> set (b # tok) \<longleftrightarrow> sg \<noteq> []"
    using minus_in_token(1)[OF assms(3,4,4)] unfolding bt(1) .
  obtain s' where r: "parseFloat F l ig s
           = Some (narrow F (if 45 \<in> set (b # tok) then dneg F (accumulated F ig (b # tok))
                             else accumulated F ig (b # tok)), s')" "input s' = x # rest"
    using parseFloat_token_any[OF inp assms(2) bt(2) run ig] by blast
  have "(if 45 \<in> set (b # tok) then dneg F (accumulated F ig (b # tok))
         else accumulated F ig (b # tok))
      = (if sg = [] then accumulated F ig (b # tok) else dneg F (accumulated F ig (b # tok)))"
    unfolding m by simp
  then show ?thesis using r unfolding bt(1)[symmetric] by simp
qed

lemma float_run_fold:
  "\<exists>tok. ys = tok @ snd (float_run F ig acc ys)
         \<and> fst (float_run F ig acc ys) = foldl (\<lambda>a y. parseFloat_accum F ig (uint y) a) acc tok"
proof (induction ys arbitrary: acc)
  case Nil
  then show ?case by simp
next
  case (Cons y ys)
  show ?case
  proof (cases "is_digit y \<or> (y = 46 \<and> \<not> fst (snd acc)) \<or> y = ig")
    case True
    let ?a = "parseFloat_accum F ig (uint y) acc"
    obtain tok where t: "ys = tok @ snd (float_run F ig ?a ys)"
        "fst (float_run F ig ?a ys) = foldl (\<lambda>a y. parseFloat_accum F ig (uint y) a) ?a tok"
      using Cons.IH[of ?a] by blast
    have r: "float_run F ig acc (y # ys) = float_run F ig ?a ys" using True by auto
    have "y # ys = (y # tok) @ snd (float_run F ig acc (y # ys))"
      unfolding r using t(1) by simp
    moreover have "fst (float_run F ig acc (y # ys))
        = foldl (\<lambda>a y. parseFloat_accum F ig (uint y) a) acc (y # tok)"
      unfolding r using t(2) by simp
    ultimately show ?thesis by blast
  next
    case False
    then have r: "float_run F ig acc (y # ys) = (acc, y # ys)" by auto
    have "y # ys = [] @ snd (float_run F ig acc (y # ys))
        \<and> fst (float_run F ig acc (y # ys))
            = foldl (\<lambda>a y. parseFloat_accum F ig (uint y) a) acc []"
      unfolding r by simp
    then show ?thesis by blast
  qed
qed

lemma parseFloat_ignore_minus_any:
  fixes s :: "'w::len word stream"
  shows "\<exists>r s' junk tok. parseFloat F l 45 s = Some (r, s')
         \<and> input s = junk @ tok @ input s'
         \<and> r = (if tok = [] then flit F 0 else narrow F (accumulated F 45 tok))"
proof -
  define P where "P = (\<lambda>y. \<not> starts True y \<and> skipped l y)"
  let ?junk = "takeWhile P (input s)"
  let ?p = "peekNextDigit l True s"
  have pt: "input (snd ?p) = dropWhile P (input s)"
      "fst ?p = (case dropWhile P (input s) of [] \<Rightarrow> - 1
              | b # _ \<Rightarrow> if starts True b then uint b else - 1)"
    using pnd_total[of l True s] unfolding P_def by simp_all
  have fail: ?thesis if "fst ?p < 0"
  proof -
    have "parseFloat F l 45 s = Some (flit F 0, snd ?p)"
      using that by (simp add: parseFloat_def split_def)
    moreover have "input s = ?junk @ [] @ input (snd ?p)" unfolding pt(1) by simp
    ultimately have "parseFloat F l 45 s = Some (flit F 0, snd ?p)
         \<and> input s = ?junk @ [] @ input (snd ?p)
         \<and> flit F 0 = (if ([] :: byte list) = [] then flit F 0
                          else narrow F (accumulated F 45 []))"
      by (simp only: simp_thms if_True)
    then show ?thesis
      by (intro exI[of _ "flit F 0"] exI[of _ "snd ?p"] exI[of _ ?junk] exI[of _ "[]"])
  qed
  show ?thesis
  proof (cases "dropWhile P (input s)")
    case Nil
    have "fst ?p < 0" unfolding pt(2) Nil by simp
    then show ?thesis by (rule fail)
  next
    case (Cons b ys)
    show ?thesis
    proof (cases "starts True b")
      case False
      have "fst ?p < 0" unfolding pt(2) Cons using False by simp
      then show ?thesis by (rule fail)
    next
      case True
      let ?f = "\<lambda>a y. parseFloat_accum F 45 (uint y) a"
      let ?init = "(False, False, dlit F 0, dlit F 1)"
      let ?a = "parseFloat_accum F 45 (uint b) ?init"
      have "input s = ?junk @ dropWhile P (input s)" by simp
      then have inp: "input s = ?junk @ b # ys" unfolding Cons .
      have j: "\<forall>y\<in>set ?junk. \<not> starts True y \<and> skipped l y"
      proof
        fix y assume "y \<in> set ?junk"
        then have "P y" by (rule set_takeWhileD[THEN conjunct2])
        then show "\<not> starts True y \<and> skipped l y" unfolding P_def .
      qed
      have ne: "snd (float_run F 45 ?a ys) \<noteq> [] \<or> (45 :: byte) \<noteq> 255" by simp
      obtain s' where r: "parseFloat F l 45 s
           = Some (let (neg, fr, v, f) = fst (float_run F 45 ?a ys)
                   in narrow F (if neg then dneg F v else v), s')"
          "input s' = snd (float_run F 45 ?a ys)"
        using parseFloat_started[OF inp j True ne] by blast
      obtain tok where t: "ys = tok @ snd (float_run F 45 ?a ys)"
          "fst (float_run F 45 ?a ys) = foldl ?f ?a tok"
        using float_run_fold[of ys F 45 ?a] by blast
      have fo: "foldl ?f ?a tok = foldl ?f ?init (b # tok)" by simp
      have ng: "\<not> fst (foldl ?f ?init (b # tok))"
        using neg_flag_fold[of F 45 ?init "b # tok"] by simp
      obtain neg fr v f where e: "foldl ?f ?init (b # tok) = (neg, fr, v, f)"
        by (cases "foldl ?f ?init (b # tok)") auto
      have "\<not> neg" "v = accumulated F 45 (b # tok)"
        using ng e by (simp_all add: accumulated_def)
      then have v: "parseFloat F l 45 s = Some (narrow F (accumulated F 45 (b # tok)), s')"
        using r(1) unfolding t(2) fo e by simp
      have "?junk @ (b # tok) @ input s' = ?junk @ b # ys" unfolding r(2) using t(1) by simp
      then have c: "input s = ?junk @ (b # tok) @ input s'" using inp by (simp only:)
      have "parseFloat F l 45 s = Some (narrow F (accumulated F 45 (b # tok)), s')
         \<and> input s = ?junk @ (b # tok) @ input s'
         \<and> narrow F (accumulated F 45 (b # tok))
             = (if b # tok = [] then flit F 0 else narrow F (accumulated F 45 (b # tok)))"
        using v c by simp
      then show ?thesis
        by (intro exI[of _ "narrow F (accumulated F 45 (b # tok))"] exI[of _ s']
                  exI[of _ ?junk] exI[of _ "b # tok"])
    qed
  qed
qed

section \<open>Rounding\<close>

text \<open>
  The exponent \<open>ilog2\<close> finds is the one of the binade; a number within a half of an
  integer rounds to it; rounding does not cross a number of the format, so it keeps a
  number of the format as it is and keeps the sign.
\<close>

lemma pow2_powi: "pow2 k = 2 powi k"
proof (cases "0 \<le> k")
  case True
  then show ?thesis by (simp only: pow2_def power_int_def if_True)
next
  case False
  have "(1 :: rat) / 2 ^ nat (- k) = inverse 2 ^ nat (- k)"
    by (simp only: inverse_eq_divide power_one_over)
  then show ?thesis using False by (simp only: pow2_def power_int_def if_False)
qed

lemma pow2_pos: "0 < pow2 k"
  by (simp add: pow2_powi)

lemma pow2_add: "pow2 (a + b) = pow2 a * pow2 b"
  by (simp add: pow2_powi power_int_add)

lemma pow2_less: "a < b \<Longrightarrow> pow2 a < pow2 b"
  by (simp add: pow2_powi power_int_strict_increasing)

lemma pow2_le: "a \<le> b \<Longrightarrow> pow2 a \<le> pow2 b"
  by (simp add: pow2_powi power_int_increasing)

lemma pow2_nat: "pow2 (int n) = 2 ^ n"
  by (simp add: pow2_def)

lemma bitlen_rat_bounds:
  assumes "0 < a"
  shows "pow2 (bitlen a - 1) \<le> of_int a" "of_int a < pow2 (bitlen a)"
proof -
  have b: "2 ^ nat (bitlen a - 1) \<le> a \<and> a < 2 ^ nat (bitlen a)"
    using bitlen_bounds[OF assms] .
  have p: "1 \<le> bitlen a"
    using assms bitlen_nonneg[of a] bitlen_eq_zero_iff[of a] by linarith
  have "pow2 (bitlen a - 1) = of_int (2 ^ nat (bitlen a - 1))"
    using p by (simp add: pow2_def)
  also have "\<dots> \<le> of_int a" using b by (simp only: of_int_le_iff)
  finally show "pow2 (bitlen a - 1) \<le> of_int a" .
  have "(of_int a :: rat) < of_int (2 ^ nat (bitlen a))" using b by (simp only: of_int_less_iff)
  also have "\<dots> = pow2 (bitlen a)" using p by (simp add: pow2_def)
  finally show "of_int a < pow2 (bitlen a)" .
qed

lemma ilog2_bounds:
  assumes "0 < q"
  shows "pow2 (ilog2 q) \<le> q \<and> q < pow2 (ilog2 q + 1)"
proof -
  obtain a b where ab: "quotient_of q = (a, b)" by (cases "quotient_of q")
  have bpos: "0 < b" using quotient_of_denom_pos[OF ab] .
  have q: "q = of_int a / of_int b" using quotient_of_div[OF ab] .
  have apos: "0 < a" using assms bpos q by (simp add: zero_less_divide_iff)
  define k where "k = bitlen a - bitlen b"
  have upper: "q < pow2 (k + 1)"
  proof -
    have "of_int a < pow2 (bitlen a)" using bitlen_rat_bounds(2)[OF apos] .
    moreover have "pow2 (bitlen b - 1) \<le> of_int b" using bitlen_rat_bounds(1)[OF bpos] .
    moreover have "pow2 (bitlen a) = pow2 (k + 1) * pow2 (bitlen b - 1)"
      unfolding k_def pow2_add[symmetric] by simp
    ultimately have "of_int a < pow2 (k + 1) * of_int b"
      using pow2_pos[of "k + 1"] by (metis less_le_trans mult_left_mono less_imp_le)
    then show ?thesis unfolding q using bpos by (simp add: pos_divide_less_eq)
  qed
  have lower: "pow2 (k - 1) < q"
  proof -
    have "pow2 (bitlen a - 1) \<le> of_int a" using bitlen_rat_bounds(1)[OF apos] .
    moreover have "of_int b < pow2 (bitlen b)" using bitlen_rat_bounds(2)[OF bpos] .
    moreover have "pow2 (bitlen a - 1) = pow2 (k - 1) * pow2 (bitlen b)"
      unfolding k_def pow2_add[symmetric] by simp
    moreover have "pow2 (k - 1) * of_int b < pow2 (k - 1) * pow2 (bitlen b)"
      using calculation(2) pow2_pos[of "k - 1"] by simp
    ultimately have "pow2 (k - 1) * of_int b < of_int a" by simp
    then show ?thesis unfolding q using bpos by (simp add: pos_less_divide_eq)
  qed
  have i: "ilog2 q = (if pow2 k \<le> q then k else k - 1)"
    by (simp add: ilog2_def ab k_def Let_def)
  show ?thesis
  proof (cases "pow2 k \<le> q")
    case True
    then show ?thesis using i upper by simp
  next
    case False
    then show ?thesis using i lower by simp
  qed
qed

lemma ilog2_unique:
  assumes "pow2 k \<le> q" "q < pow2 (k + 1)"
  shows "ilog2 q = k"
proof -
  have "0 < q" using assms(1) pow2_pos[of k] by simp
  then have b: "pow2 (ilog2 q) \<le> q" "q < pow2 (ilog2 q + 1)" using ilog2_bounds by blast+
  have "\<not> ilog2 q < k"
  proof
    assume "ilog2 q < k"
    then have "pow2 (ilog2 q + 1) \<le> pow2 k" by (intro pow2_le) simp
    then show False using b(2) assms(1) by simp
  qed
  moreover have "\<not> k < ilog2 q"
  proof
    assume "k < ilog2 q"
    then have "pow2 (k + 1) \<le> pow2 (ilog2 q)" by (intro pow2_le) simp
    then show False using b(1) assms(2) by simp
  qed
  ultimately show ?thesis by simp
qed



lemma pow2_diff: "pow2 (a - b) = pow2 a / pow2 b"
  by (simp add: pow2_powi power_int_diff)

lemma pow2_0: "pow2 0 = 1"
  by (simp add: pow2_def)

lemma round_even_near:
  assumes "\<bar>m - of_int n\<bar> < 1 / 2"
  shows "round_even m = n"
proof -
  have b: "of_int n - 1 / 2 < m" "m < of_int n + 1 / 2" using assms by linarith+
  show ?thesis
  proof (cases "of_int n \<le> m")
    case True
    have "\<lfloor>m\<rfloor> = n" by (rule floor_unique) (use True b(2) in simp_all)
    then show ?thesis using b(2) by (simp add: round_even_def)
  next
    case False
    have f: "\<lfloor>m\<rfloor> = n - 1" by (rule floor_unique) (use False b(1) in simp_all)
    have "\<not> m - of_int (n - 1) < 1 / 2" "1 / 2 < m - of_int (n - 1)" using b(1) by simp_all
    then show ?thesis unfolding round_even_def f Let_def by simp
  qed
qed

lemma round_even_ge:
  assumes "of_int m \<le> x"
  shows "m \<le> round_even x"
proof -
  have "m \<le> \<lfloor>x\<rfloor>" using assms by (simp add: le_floor_iff)
  then show ?thesis by (simp add: round_even_def Let_def)
qed

lemma round_even_le:
  assumes "x \<le> of_int m"
  shows "round_even x \<le> m"
proof (cases "x = of_int \<lfloor>x\<rfloor>")
  case True
  then have "x - of_int \<lfloor>x\<rfloor> = 0" by simp
  then have "round_even x = \<lfloor>x\<rfloor>" by (simp add: round_even_def Let_def)
  moreover have "\<lfloor>x\<rfloor> \<le> m" using assms by (simp add: floor_le_iff)
  ultimately show ?thesis by simp
next
  case False
  have "x \<noteq> of_int m"
  proof
    assume "x = of_int m"
    then have "\<lfloor>x\<rfloor> = m" by simp
    then show False using False \<open>x = of_int m\<close> by simp
  qed
  then have "x < of_int m" using assms by simp
  then have "\<lfloor>x\<rfloor> < m" by (simp add: floor_less_iff)
  then show ?thesis by (simp add: round_even_def Let_def)
qed

lemma round_to_pos:
  assumes "0 < q"
  shows "round_to p qmin emax q =
     (if pow2 emax \<le> of_int (round_even (q / pow2 (max (ilog2 q - (int p - 1)) qmin)))
                       * pow2 (max (ilog2 q - (int p - 1)) qmin)
      then Infinity False
      else Finite (of_int (round_even (q / pow2 (max (ilog2 q - (int p - 1)) qmin)))
                   * pow2 (max (ilog2 q - (int p - 1)) qmin)))"
proof -
  have q: "q \<noteq> 0" "\<bar>q\<bar> = q" "\<not> q < 0" using assms by simp_all
  show ?thesis unfolding round_to_def Let_def q(2) using q(1,3) by simp
qed

lemma round_to_uminus:
  assumes "0 < q"
  shows "round_to p qmin emax (- q) = ieee_neg (round_to p qmin emax q)"
proof -
  have q: "- q \<noteq> 0" "\<bar>- q\<bar> = q" "- q < 0" "q \<noteq> 0" "\<bar>q\<bar> = q" "\<not> q < 0" using assms by simp_all
  have "round_to p qmin emax (- q) =
     (let e = max (ilog2 q - (int p - 1)) qmin;
          r = of_int (round_even (q / pow2 e)) * pow2 e
      in if pow2 emax \<le> r then Infinity True
         else if r = 0 then NegZero else Finite (- r))"
    unfolding round_to_def[of p qmin emax "- q"] q(2) using q(1,3) by (simp add: Let_def)
  moreover have "round_to p qmin emax q =
     (let e = max (ilog2 q - (int p - 1)) qmin;
          r = of_int (round_even (q / pow2 e)) * pow2 e
      in if pow2 emax \<le> r then Infinity False else Finite r)"
    unfolding round_to_def[of p qmin emax q] q(5) using q(4,6) by (simp add: Let_def)
  ultimately show ?thesis by (simp add: Let_def)
qed

lemma round_even_tie:
  assumes "even n"
  shows "round_even (of_int n + 1 / 2) = n"
proof -
  have f: "\<lfloor>(of_int n :: rat) + 1 / 2\<rfloor> = n" by (rule floor_unique) simp_all
  show ?thesis unfolding round_even_def f Let_def using assms by simp
qed

lemma round_to_eval:
  assumes "pow2 k \<le> q" "q < pow2 (k + 1)"
    and "e = max (k - (int p - 1)) qmin"
    and "round_even (q / pow2 e) = n"
    and "of_int n * pow2 e < pow2 emax"
    and "r = of_int n * pow2 e"
  shows "round_to p qmin emax q = Finite r"
proof -
  have pos: "0 < q" using assms(1) pow2_pos[of k] by simp
  have i: "ilog2 q = k" using ilog2_unique[OF assms(1,2)] .
  have o: "\<not> pow2 emax \<le> of_int n * pow2 e" using assms(5) by simp
  show ?thesis
    unfolding round_to_pos[OF pos] i assms(3)[symmetric] assms(4) assms(6) using o by simp
qed

lemma binary64_eval:
  assumes "pow2 k \<le> q" "q < pow2 (k + 1)" "- 1022 \<le> k" "k < 1024"
    and "\<bar>q / pow2 (k - 52) - of_int n\<bar> < 1 / 2"
    and "of_int n * pow2 (k - 52) < pow2 1024"
    and "r = of_int n * pow2 (k - 52)"
  shows "binary64 q = Finite r"
  unfolding binary64_def
  by (rule round_to_eval[OF assms(1,2) _ round_even_near[OF assms(5)] assms(6,7)])
     (use assms(3) in simp)

lemma binary32_eval:
  assumes "pow2 k \<le> q" "q < pow2 (k + 1)" "- 126 \<le> k" "k < 128"
    and "\<bar>q / pow2 (k - 23) - of_int n\<bar> < 1 / 2"
    and "of_int n * pow2 (k - 23) < pow2 128"
    and "r = of_int n * pow2 (k - 23)"
  shows "binary32 q = Finite r"
  unfolding binary32_def
  by (rule round_to_eval[OF assms(1,2) _ round_even_near[OF assms(5)] assms(6,7)])
     (use assms(3) in simp)

lemma binary32_eval_tie:
  assumes "pow2 k \<le> q" "q < pow2 (k + 1)" "- 126 \<le> k" "k < 128"
    and "q / pow2 (k - 23) = of_int n + 1 / 2" "even n"
    and "of_int n * pow2 (k - 23) < pow2 128"
    and "r = of_int n * pow2 (k - 23)"
  shows "binary32 q = Finite r"
proof -
  have t: "round_even (q / pow2 (k - 23)) = n"
    unfolding assms(5) using assms(6) by (rule round_even_tie)
  show ?thesis
    unfolding binary32_def
    by (rule round_to_eval[OF assms(1,2) _ t assms(7,8)]) (use assms(3) in simp)
qed

lemma round_to_nonneg:
  assumes "0 \<le> q"
  shows "round_to p qmin emax q = Infinity False
         \<or> (\<exists>r. round_to p qmin emax q = Finite r \<and> 0 \<le> r)"
proof (cases "q = 0")
  case True
  then show ?thesis by (simp add: round_to_def)
next
  case False
  then have pos: "0 < q" using assms by simp
  define e where "e = max (ilog2 q - (int p - 1)) qmin"
  have "of_int 0 \<le> q / pow2 e" using pos pow2_pos[of e] by simp
  then have "0 \<le> round_even (q / pow2 e)" by (rule round_even_ge)
  then have "0 \<le> of_int (round_even (q / pow2 e)) * pow2 e"
    using pow2_pos[of e] by simp
  then show ?thesis unfolding round_to_pos[OF pos] e_def by simp
qed

lemma round_to_ge:
  assumes "0 < m" "m < 2 ^ p" "qmin \<le> j" "of_int m * pow2 j \<le> q"
  shows "round_to p qmin emax q = Infinity False
         \<or> (\<exists>r. round_to p qmin emax q = Finite r \<and> of_int m * pow2 j \<le> r)"
proof -
  have apos: "0 < of_int m * pow2 j" using assms(1) pow2_pos[of j] by simp
  then have pos: "0 < q" using assms(4) by simp
  define k where "k = ilog2 q"
  define e where "e = max (k - (int p - 1)) qmin"
  define n where "n = round_even (q / pow2 e)"
  have kb: "pow2 k \<le> q" "q < pow2 (k + 1)" using ilog2_bounds[OF pos] unfolding k_def by blast+
  have ppos: "0 < p"
  proof (rule ccontr)
    assume "\<not> 0 < p"
    then have "p = 0" by simp
    then show False using assms(1,2) by simp
  qed
  have ge: "of_int m * pow2 j \<le> of_int n * pow2 e"
  proof (cases "e \<le> j")
    case True
    have d: "pow2 j = of_int (2 ^ nat (j - e)) * pow2 e"
    proof -
      have "pow2 j = pow2 ((j - e) + e)" by simp
      also have "\<dots> = pow2 (j - e) * pow2 e" by (rule pow2_add)
      also have "pow2 (j - e) = of_int (2 ^ nat (j - e))" using True by (simp add: pow2_def)
      finally show ?thesis .
    qed
    have "of_int (m * 2 ^ nat (j - e)) * pow2 e \<le> q"
      using assms(4) unfolding d by (simp add: mult.assoc)
    then have "of_int (m * 2 ^ nat (j - e)) \<le> q / pow2 e"
      using pow2_pos[of e] by (simp add: pos_le_divide_eq)
    then have "m * 2 ^ nat (j - e) \<le> n" unfolding n_def by (rule round_even_ge)
    then have "(of_int (m * 2 ^ nat (j - e)) :: rat) \<le> of_int n" by (simp only: of_int_le_iff)
    then have "of_int (m * 2 ^ nat (j - e)) * pow2 e \<le> of_int n * pow2 e"
      by (rule mult_right_mono) (simp add: less_imp_le pow2_pos)
    then show ?thesis unfolding d by (simp add: mult.assoc)
  next
    case False
    then have ek: "e = k - (int p - 1)" using assms(3) unfolding e_def by simp
    then have kj: "j + int p \<le> k" using False by simp
    have d: "pow2 k = of_int (2 ^ (p - 1)) * pow2 e"
    proof -
      have "pow2 k = pow2 ((int p - 1) + e)" unfolding ek by simp
      also have "\<dots> = pow2 (int p - 1) * pow2 e" by (rule pow2_add)
      also have "pow2 (int p - 1) = of_int (2 ^ (p - 1))"
        using ppos by (simp add: pow2_def nat_diff_distrib')
      finally show ?thesis .
    qed
    have "of_int (2 ^ (p - 1)) * pow2 e \<le> q" using kb(1) unfolding d .
    then have "of_int (2 ^ (p - 1)) \<le> q / pow2 e"
      using pow2_pos[of e] by (simp add: pos_le_divide_eq)
    then have "2 ^ (p - 1) \<le> n" unfolding n_def by (rule round_even_ge)
    then have "(of_int (2 ^ (p - 1)) :: rat) \<le> of_int n" by (simp only: of_int_le_iff)
    then have "of_int (2 ^ (p - 1)) * pow2 e \<le> of_int n * pow2 e"
      by (rule mult_right_mono) (simp add: less_imp_le pow2_pos)
    then have "pow2 k \<le> of_int n * pow2 e" unfolding d .
    moreover have "pow2 (j + int p) \<le> pow2 k" using kj by (rule pow2_le)
    moreover have "of_int m * pow2 j \<le> pow2 (j + int p)"
    proof -
      have "m \<le> 2 ^ p" using assms(2) by simp
      then have "(of_int m :: rat) \<le> of_int (2 ^ p)" by (simp only: of_int_le_iff)
      then have "(of_int m :: rat) \<le> pow2 (int p)" by (simp add: pow2_nat)
      then have "of_int m * pow2 j \<le> pow2 (int p) * pow2 j"
        by (rule mult_right_mono) (simp add: less_imp_le pow2_pos)
      then show ?thesis by (simp add: pow2_add mult.commute)
    qed
    ultimately show ?thesis by linarith
  qed
  show ?thesis
    unfolding round_to_pos[OF pos] k_def[symmetric] e_def[symmetric] n_def[symmetric]
    using ge by simp
qed

lemma round_to_le:
  assumes "0 < q" "m < 2 ^ p" "qmin \<le> j" "q \<le> of_int m * pow2 j"
    and "of_int m * pow2 j < pow2 emax"
  shows "\<exists>r. round_to p qmin emax q = Finite r \<and> 0 \<le> r \<and> r \<le> of_int m * pow2 j"
proof -
  define k where "k = ilog2 q"
  define e where "e = max (k - (int p - 1)) qmin"
  define n where "n = round_even (q / pow2 e)"
  have kb: "pow2 k \<le> q" "q < pow2 (k + 1)"
    using ilog2_bounds[OF assms(1)] unfolding k_def by blast+
  have lt: "of_int m * pow2 j < pow2 (j + int p)"
  proof -
    have "(of_int m :: rat) < of_int (2 ^ p)" using assms(2) by (simp only: of_int_less_iff)
    then have "(of_int m :: rat) < pow2 (int p)" by (simp add: pow2_nat)
    then have "of_int m * pow2 j < pow2 (int p) * pow2 j"
      by (rule mult_strict_right_mono) (simp add: pow2_pos)
    then show ?thesis by (simp add: pow2_add mult.commute)
  qed
  have ej: "e \<le> j"
  proof (rule ccontr)
    assume "\<not> e \<le> j"
    then have "e = k - (int p - 1)" "j < e" using assms(3) unfolding e_def by simp_all
    then have "j + int p \<le> k" by simp
    then have "pow2 (j + int p) \<le> pow2 k" by (rule pow2_le)
    then show False using kb(1) assms(4) lt by linarith
  qed
  have d: "pow2 j = of_int (2 ^ nat (j - e)) * pow2 e"
  proof -
    have "pow2 j = pow2 ((j - e) + e)" by simp
    also have "\<dots> = pow2 (j - e) * pow2 e" by (rule pow2_add)
    also have "pow2 (j - e) = of_int (2 ^ nat (j - e))" using ej by (simp add: pow2_def)
    finally show ?thesis .
  qed
  have "q \<le> of_int (m * 2 ^ nat (j - e)) * pow2 e"
    using assms(4) unfolding d by (simp add: mult.assoc)
  then have "q / pow2 e \<le> of_int (m * 2 ^ nat (j - e))"
    using pow2_pos[of e] by (simp add: pos_divide_le_eq)
  then have "n \<le> m * 2 ^ nat (j - e)" unfolding n_def by (rule round_even_le)
  then have "(of_int n :: rat) \<le> of_int (m * 2 ^ nat (j - e))" by (simp only: of_int_le_iff)
  then have "of_int n * pow2 e \<le> of_int (m * 2 ^ nat (j - e)) * pow2 e"
    by (rule mult_right_mono) (simp add: less_imp_le pow2_pos)
  then have le: "of_int n * pow2 e \<le> of_int m * pow2 j" unfolding d by (simp add: mult.assoc)
  have "of_int 0 \<le> q / pow2 e" using assms(1) pow2_pos[of e] by simp
  then have "0 \<le> n" unfolding n_def by (rule round_even_ge)
  then have nn: "0 \<le> of_int n * pow2 e" using pow2_pos[of e] by simp
  have "\<not> pow2 emax \<le> of_int n * pow2 e" using le assms(5) by simp
  then show ?thesis
    unfolding round_to_pos[OF assms(1)] k_def[symmetric] e_def[symmetric] n_def[symmetric]
    using le nn by simp
qed

lemma round_to_representable:
  assumes "0 < m" "m < 2 ^ p" "qmin \<le> j" "of_int m * pow2 j < pow2 emax"
  shows "round_to p qmin emax (of_int m * pow2 j) = Finite (of_int m * pow2 j)"
proof -
  have pos: "0 < of_int m * pow2 j" using assms(1) pow2_pos[of j] by simp
  obtain r where r: "round_to p qmin emax (of_int m * pow2 j) = Finite r" "r \<le> of_int m * pow2 j"
    using round_to_le[OF pos assms(2,3) order_refl assms(4)] by blast
  have "of_int m * pow2 j \<le> r"
    using round_to_ge[OF assms(1,2,3) order_refl, of emax] r(1) by simp
  then show ?thesis using r by simp
qed

lemma binary64_int:
  assumes "0 \<le> n" "n < 2 ^ 53"
  shows "binary64 (of_int n) = Finite (of_int n)"
proof (cases "n = 0")
  case True
  then show ?thesis by (simp add: binary64_def round_to_def)
next
  case False
  then have n: "0 < n" using assms(1) by simp
  have "(of_int n :: rat) < of_int (2 ^ 53)" using assms(2) by (simp only: of_int_less_iff)
  then have "(of_int n :: rat) < pow2 53" by (simp add: pow2_def)
  moreover have "pow2 53 \<le> pow2 1024" by (rule pow2_le) simp
  ultimately have "of_int n * pow2 0 < pow2 1024" by (simp add: pow2_0)
  then show ?thesis
    using round_to_representable[OF n assms(2), of "- 1074" 0 1024]
    by (simp add: binary64_def pow2_0)
qed

lemma binary32_int:
  assumes "0 \<le> n" "n < 2 ^ 24"
  shows "binary32 (of_int n) = Finite (of_int n)"
proof (cases "n = 0")
  case True
  then show ?thesis by (simp add: binary32_def round_to_def)
next
  case False
  then have n: "0 < n" using assms(1) by simp
  have "(of_int n :: rat) < of_int (2 ^ 24)" using assms(2) by (simp only: of_int_less_iff)
  then have "(of_int n :: rat) < pow2 24" by (simp add: pow2_def)
  moreover have "pow2 24 \<le> pow2 128" by (rule pow2_le) simp
  ultimately have "of_int n * pow2 0 < pow2 128" by (simp add: pow2_0)
  then show ?thesis
    using round_to_representable[OF n assms(2), of "- 149" 0 128]
    by (simp add: binary32_def pow2_0)
qed

section \<open>\<^verbatim>\<open>parseFloat\<close> in IEEE 754 arithmetic\<close>

text \<open>
  Before the decimal point every value is an integer; as long as the number of the digits
  read plus 48 is below \<open>2^53\<close> no operation rounds. With the ignore character \<^verbatim>\<open>'-'\<close>
  the value stays a number not below zero or the positive infinity, and the scale factor
  stays between 0 and 1.
\<close>

lemma ieee754_sel:
  "dlit ieee754 = binary64" "dadd ieee754 = ieee_add"
  "dsub ieee754 = (\<lambda>a b. ieee_add a (ieee_neg b))" "dmul ieee754 = ieee_mul"
  "dneg ieee754 = ieee_neg" "narrow ieee754 = ieee_narrow" "flit ieee754 = binary32"
  by (simp_all add: ieee754_def)

lemma binary64_numeral:
  "numeral w < (2 :: int) ^ 53 \<Longrightarrow> binary64 (numeral w) = Finite (numeral w)"
  using binary64_int[of "numeral w"] by simp

lemma binary64_0: "binary64 0 = Finite 0"
  using binary64_int[of 0] by simp

lemma binary64_1: "binary64 1 = Finite 1"
  using binary64_int[of 1] by simp

lemma binary32_0: "binary32 0 = Finite 0"
  using binary32_int[of 0] by simp

lemma ieee_mul_nat:
  assumes "0 \<le> a" "0 \<le> b"
  shows "ieee_mul (Finite a) (Finite b) = binary64 (a * b)"
  using assms by (auto simp: binary64_def round_to_def)

lemma ieee_int_digit:
  assumes "is_digit y" "y \<noteq> ig" "0 \<le> n" "n * 10 + uint y < 2 ^ 53"
  shows "parseFloat_accum ieee754 ig (uint y) (neg, False, Finite (of_int n), f)
         = (neg, False, Finite (of_int (n * 10 + (uint y - 48))), f)"
proof -
  have y: "y \<noteq> 45" "y \<noteq> 46" using assms(1) not_digit_45 by auto
  have c: "48 \<le> uint y" using assms(1) by (rule is_digit_uint)
  have m: "ieee_mul (Finite (of_int n)) (Finite 10) = Finite (of_int (n * 10))"
  proof -
    have "ieee_mul (Finite (of_int n)) (Finite 10) = binary64 (of_int n * 10)"
      using assms(3) by (intro ieee_mul_nat) simp_all
    also have "\<dots> = binary64 (of_int (n * 10))" by simp
    also have "\<dots> = Finite (of_int (n * 10))"
      using assms(3,4) c by (intro binary64_int) simp_all
    finally show ?thesis .
  qed
  have u: "binary64 (of_int (uint y)) = Finite (of_int (uint y))"
    using assms(3,4) c by (intro binary64_int) simp_all
  have a: "ieee_add (Finite (of_int (n * 10))) (Finite (of_int (uint y)))
           = Finite (of_int (n * 10 + uint y))"
  proof -
    have "ieee_add (Finite (of_int (n * 10))) (Finite (of_int (uint y)))
          = binary64 (of_int (n * 10 + uint y))" by simp
    also have "\<dots> = Finite (of_int (n * 10 + uint y))"
      using assms(3,4) c by (intro binary64_int) simp_all
    finally show ?thesis .
  qed
  have s: "ieee_add (Finite (of_int (n * 10 + uint y))) (ieee_neg (Finite 48))
           = Finite (of_int (n * 10 + (uint y - 48)))"
  proof -
    have "ieee_add (Finite (of_int (n * 10 + uint y))) (ieee_neg (Finite 48))
          = binary64 (of_int (n * 10 + (uint y - 48)))" by (simp add: add_diff_eq)
    also have "\<dots> = Finite (of_int (n * 10 + (uint y - 48)))"
      using assms(3,4) c by (intro binary64_int) simp_all
    finally show ?thesis .
  qed
  have l: "binary64 10 = Finite 10" "binary64 48 = Finite 48"
    by (simp_all add: binary64_numeral)
  show ?thesis
    unfolding parseFloat_accum_byte ieee754_sel l u m a s using assms(1,2) y by simp
qed

lemma decimal_from_mono:
  assumes "\<forall>y\<in>set ds. is_digit y" "0 \<le> n"
  shows "n \<le> decimal_from n ds"
  using assms
proof (induction ds arbitrary: n)
  case Nil
  then show ?case by (simp add: decimal_from_def)
next
  case (Cons d ds)
  have c: "48 \<le> uint d" using Cons.prems(1) by (simp add: is_digit_uint)
  have "n * 10 + (uint d - 48) \<le> decimal_from (n * 10 + (uint d - 48)) ds"
    using Cons.prems c by (intro Cons.IH) simp_all
  then show ?case unfolding decimal_from_Cons using c Cons.prems(2) by linarith
qed

lemma ieee_fold_int:
  assumes "\<forall>y\<in>set ds. is_digit y" "ig \<notin> set ds" "0 \<le> n" "decimal_from n ds + 48 < 2 ^ 53"
  shows "foldl (\<lambda>a y. parseFloat_accum ieee754 ig (uint y) a) (neg, False, Finite (of_int n), f) ds
         = (neg, False, Finite (of_int (decimal_from n ds)), f)"
  using assms
proof (induction ds arbitrary: n)
  case Nil
  then show ?case by (simp add: decimal_from_def)
next
  case (Cons d ds)
  have d: "is_digit d" "d \<noteq> ig" using Cons.prems(1,2) by auto
  have c: "48 \<le> uint d" using d(1) by (rule is_digit_uint)
  let ?n = "n * 10 + (uint d - 48)"
  have n0: "0 \<le> ?n" using c Cons.prems(3) by simp
  have "?n \<le> decimal_from ?n ds" using Cons.prems(1) n0 by (intro decimal_from_mono) simp_all
  then have b: "n * 10 + uint d < 2 ^ 53"
    using Cons.prems(4) unfolding decimal_from_Cons by linarith
  have ih: "foldl (\<lambda>a y. parseFloat_accum ieee754 ig (uint y) a)
              (neg, False, Finite (of_int ?n), f) ds
            = (neg, False, Finite (of_int (decimal_from ?n ds)), f)"
    using Cons.prems n0 by (intro Cons.IH) (simp_all add: decimal_from_Cons)
  show ?case
    by (simp only: foldl_Cons ieee_int_digit[OF d Cons.prems(3) b] ih decimal_from_Cons)
qed

lemma ieee_fold_sign:
  assumes "sg = [] \<or> sg = [45]" "ig \<notin> set sg"
  shows "foldl (\<lambda>a y. parseFloat_accum ieee754 ig (uint y) a) (False, False, Finite 0, Finite 1) sg
         = (sg \<noteq> [], False, Finite 0, Finite 1)"
  using assms by (auto simp: parseFloat_accum_byte)

lemma accumulated_ieee_plain:
  assumes "sg = [] \<or> sg = [45]" "\<forall>y\<in>set ds. is_digit y" "ig \<notin> set (sg @ ds)"
    and "decimal_from 0 ds + 48 < 2 ^ 53"
  shows "accumulated ieee754 ig (sg @ ds) = Finite (of_int (decimal_from 0 ds))"
proof -
  have i: "ig \<notin> set sg" "ig \<notin> set ds" using assms(3) by auto
  have "foldl (\<lambda>a y. parseFloat_accum ieee754 ig (uint y) a) (False, False, Finite 0, Finite 1)
          (sg @ ds) = (sg \<noteq> [], False, Finite (of_int (decimal_from 0 ds)), Finite 1)"
    using ieee_fold_int[OF assms(2) i(2) order_refl, of "sg \<noteq> []" "Finite 1"] assms(4)
    by (simp only: foldl_append ieee_fold_sign[OF assms(1) i(1)]) simp
  then show ?thesis by (simp add: accumulated_def ieee754_sel binary64_0 binary64_1)
qed

lemma not_negative_iff:
  "not_negative x \<longleftrightarrow> x = Infinity False \<or> (\<exists>r. x = Finite r \<and> 0 \<le> r)"
  by (cases x) (simp_all add: not_negative_def)

lemma not_negative_binary64: "0 \<le> q \<Longrightarrow> not_negative (binary64 q)"
  unfolding not_negative_iff binary64_def by (rule round_to_nonneg)

lemma not_negative_binary32: "0 \<le> q \<Longrightarrow> not_negative (binary32 q)"
  unfolding not_negative_iff binary32_def by (rule round_to_nonneg)

lemma binary64_unit:
  assumes "0 \<le> q" "q \<le> 1"
  shows "\<exists>r. binary64 q = Finite r \<and> 0 \<le> r \<and> r \<le> 1"
proof (cases "q = 0")
  case True
  then show ?thesis by (simp add: binary64_0)
next
  case False
  then have pos: "0 < q" using assms(1) by simp
  have "pow2 0 \<le> pow2 1024" by (rule pow2_le) simp
  moreover have "pow2 0 < pow2 1024" by (rule pow2_less) simp
  ultimately show ?thesis
    using round_to_le[OF pos, of 1 53 "- 1074" 0 1024] assms(2)
    by (simp add: binary64_def pow2_0)
qed

lemma binary64_ge_48:
  assumes "48 \<le> q"
  shows "binary64 q = Infinity False \<or> (\<exists>r. binary64 q = Finite r \<and> 48 \<le> r)"
  using round_to_ge[of 48 53 "- 1074" 0 q 1024] assms by (simp add: binary64_def pow2_0)

lemma not_negative_add:
  assumes "not_negative x" "not_negative y"
  shows "not_negative (ieee_add x y)"
proof -
  consider "x = Infinity False" | a where "x = Finite a" "0 \<le> a"
    using assms(1) unfolding not_negative_iff by blast
  then show ?thesis
  proof cases
    case 1
    then show ?thesis using assms(2) unfolding not_negative_iff[of y]
      by (auto simp: not_negative_def)
  next
    case 2
    consider "y = Infinity False" | b where "y = Finite b" "0 \<le> b"
      using assms(2) unfolding not_negative_iff by blast
    then show ?thesis
    proof cases
      case 1
      then show ?thesis using 2 by (simp add: not_negative_def)
    next
      case 2
      then show ?thesis using \<open>x = Finite a\<close> \<open>0 \<le> a\<close> by (simp add: not_negative_binary64)
    qed
  qed
qed

lemma not_negative_mul:
  assumes "not_negative x" "0 < b"
  shows "not_negative (ieee_mul x (Finite b))"
proof -
  consider "x = Infinity False" | a where "x = Finite a" "0 \<le> a"
    using assms(1) unfolding not_negative_iff by blast
  then show ?thesis
  proof cases
    case 1
    then show ?thesis using assms(2) by (simp add: not_negative_def)
  next
    case 2
    have "ieee_mul (Finite a) (Finite b) = binary64 (a * b)"
      using 2(2) assms(2) by (intro ieee_mul_nat) simp_all
    then show ?thesis using 2 assms(2) by (simp add: not_negative_binary64)
  qed
qed

lemma not_negative_digit_step:
  assumes "not_negative v" "48 \<le> c"
  shows "not_negative (ieee_add (ieee_add (ieee_mul v (Finite 10)) (Finite c)) (ieee_neg (Finite 48)))"
proof -
  have m: "not_negative (ieee_mul v (Finite 10))" using assms(1) by (rule not_negative_mul) simp
  have n: "ieee_neg (Finite 48) = Finite (- 48)" by simp
  consider "ieee_mul v (Finite 10) = Infinity False"
    | a where "ieee_mul v (Finite 10) = Finite a" "0 \<le> a"
    using m unfolding not_negative_iff by blast
  then show ?thesis
  proof cases
    case 1
    then show ?thesis unfolding n by (simp add: not_negative_def)
  next
    case 2
    have "48 \<le> a + c" using 2(2) assms(2) by simp
    then consider "binary64 (a + c) = Infinity False"
      | r where "binary64 (a + c) = Finite r" "48 \<le> r"
      using binary64_ge_48 by blast
    then show ?thesis
    proof cases
      case 1
      then show ?thesis unfolding n 2(1) by (simp add: not_negative_def)
    next
      case (2 r)
      have "not_negative (binary64 (r - 48))" using 2(2) by (intro not_negative_binary64) simp
      then show ?thesis unfolding n \<open>ieee_mul v (Finite 10) = Finite a\<close> using 2(1) by simp
    qed
  qed
qed

lemma unsigned_state_accum:
  fixes y :: byte
  assumes "unsigned_state acc"
  shows "unsigned_state (parseFloat_accum ieee754 45 (uint y) acc)"
proof -
  obtain neg fr v f where a: "acc = (neg, fr, v, f)" by (cases acc) auto
  obtain ff where h: "neg = False" "not_negative v" "f = Finite ff" "0 \<le> ff" "ff \<le> 1"
    using assms a by (cases f) (simp_all add: unsigned_state_def)
  show ?thesis
  proof (cases "is_digit y")
    case True
    have c: "48 \<le> uint y" using True by (rule is_digit_uint)
    have c9: "uint y \<le> 57" using True by (simp add: is_digit_def word_le_def)
    have y: "y \<noteq> 45" "y \<noteq> 46" using True not_digit_45 by auto
    show ?thesis
    proof (cases fr)
      case False
      have "(of_int 48 :: rat) \<le> of_int (uint y)" using c by (simp only: of_int_le_iff)
      then have "not_negative (ieee_add (ieee_add (ieee_mul v (Finite 10)) (Finite (of_int (uint y))))
                                (ieee_neg (Finite 48)))"
        using h(2) by (intro not_negative_digit_step) simp_all
      moreover have "binary64 (of_int (uint y)) = Finite (of_int (uint y))"
        using c c9 by (intro binary64_int) simp_all
      moreover have "binary64 10 = Finite 10" "binary64 48 = Finite 48"
        by (simp_all add: binary64_numeral)
      ultimately show ?thesis
        unfolding a parseFloat_accum_byte ieee754_sel using True False y h
        by (simp add: unsigned_state_def)
    next
      case fr: True
      obtain t where t: "binary64 (1 / 10) = Finite t" "0 \<le> t" "t \<le> 1"
        using binary64_unit[of "1 / 10"] by auto
      have "ff * t \<le> 1 * 1" using h(4,5) t(2,3) by (intro mult_mono) simp_all
      then obtain f1 where f1: "binary64 (ff * t) = Finite f1" "0 \<le> f1" "f1 \<le> 1"
        using binary64_unit[of "ff * t"] h(4) t(2) by auto
      have m1: "ieee_mul (Finite ff) (Finite t) = Finite f1"
        using ieee_mul_nat[OF h(4) t(2)] f1(1) by simp
      have d: "binary64 (of_int (uint y - 48)) = Finite (of_int (uint y - 48))"
        using c c9 by (intro binary64_int) simp_all
      have "0 \<le> uint y - 48" using c by simp
      then have "(0 :: rat) \<le> of_int (uint y - 48)" by (simp only: of_int_0_le_iff)
      then have "ieee_mul (Finite f1) (Finite (of_int (uint y - 48)))
                 = binary64 (f1 * of_int (uint y - 48))"
        "0 \<le> f1 * of_int (uint y - 48)"
        using f1(2) by (simp_all only: ieee_mul_nat mult_nonneg_nonneg)
      then have "not_negative (ieee_mul (Finite f1) (Finite (of_int (uint y - 48))))"
        by (simp only: not_negative_binary64)
      then have "not_negative (ieee_add v (ieee_mul (Finite f1) (Finite (of_int (uint y - 48)))))"
        using h(2) by (intro not_negative_add)
      then show ?thesis
        unfolding a parseFloat_accum_byte ieee754_sel h(3) t(1) m1 d using True fr y h(1) f1
        by (simp add: unsigned_state_def)
    qed
  next
    case False
    then show ?thesis using h unfolding a
      by (simp only: parseFloat_accum_byte) (auto simp: unsigned_state_def)
  qed
qed

lemma unsigned_state_run:
  "unsigned_state acc \<Longrightarrow> unsigned_state (fst (float_run ieee754 45 acc ys))"
  by (induction ys arbitrary: acc) (auto simp: unsigned_state_accum)

lemma parseFloat_ignore_minus_ieee:
  fixes s :: "'w::len word stream"
  shows "\<exists>r s'. parseFloat ieee754 l 45 s = Some (r, s')
           \<and> (r = Infinity False \<or> (\<exists>q. r = Finite q \<and> 0 \<le> q))"
proof -
  define P where "P = (\<lambda>y. \<not> starts True y \<and> skipped l y)"
  let ?junk = "takeWhile P (input s)"
  let ?p = "peekNextDigit l True s"
  have pt: "input (snd ?p) = dropWhile P (input s)"
      "fst ?p = (case dropWhile P (input s) of [] \<Rightarrow> - 1
              | b # _ \<Rightarrow> if starts True b then uint b else - 1)"
    using pnd_total[of l True s] unfolding P_def by simp_all
  have fail: ?thesis if "fst ?p < 0"
  proof -
    have "parseFloat ieee754 l 45 s = Some (Finite 0, snd ?p)"
      using that by (simp add: parseFloat_def split_def ieee754_sel binary32_0)
    then show ?thesis by simp
  qed
  show ?thesis
  proof (cases "dropWhile P (input s)")
    case Nil
    have "fst ?p < 0" unfolding pt(2) Nil by simp
    then show ?thesis by (rule fail)
  next
    case (Cons b ys)
    show ?thesis
    proof (cases "starts True b")
      case False
      have "fst ?p < 0" unfolding pt(2) Cons using False by simp
      then show ?thesis by (rule fail)
    next
      case True
      let ?init = "(False, False, dlit ieee754 0, dlit ieee754 1)"
      let ?a = "parseFloat_accum ieee754 45 (uint b) ?init"
      have "input s = ?junk @ dropWhile P (input s)" by simp
      then have inp: "input s = ?junk @ b # ys" unfolding Cons .
      have j: "\<forall>y\<in>set ?junk. \<not> starts True y \<and> skipped l y"
      proof
        fix y assume "y \<in> set ?junk"
        then have "P y" by (rule set_takeWhileD[THEN conjunct2])
        then show "\<not> starts True y \<and> skipped l y" unfolding P_def .
      qed
      have ne: "snd (float_run ieee754 45 ?a ys) \<noteq> [] \<or> (45 :: byte) \<noteq> 255" by simp
      obtain s' where r: "parseFloat ieee754 l 45 s
           = Some (let (neg, fr, v, f) = fst (float_run ieee754 45 ?a ys)
                   in narrow ieee754 (if neg then dneg ieee754 v else v), s')"
        using parseFloat_started[OF inp j True ne] by blast
      have "unsigned_state ?init"
        by (simp add: unsigned_state_def ieee754_sel binary64_0 binary64_1 not_negative_def)
      then have "unsigned_state (fst (float_run ieee754 45 ?a ys))"
        by (intro unsigned_state_run unsigned_state_accum)
      then obtain fr v f where v: "fst (float_run ieee754 45 ?a ys) = (False, fr, v, f)"
          "not_negative v"
        by (cases "fst (float_run ieee754 45 ?a ys)") (auto simp: unsigned_state_def)
      have n: "not_negative (ieee_narrow v)"
        using v(2) unfolding not_negative_iff[of v]
        by (auto simp: not_negative_binary32) (simp add: not_negative_def)
      have "parseFloat ieee754 l 45 s = Some (ieee_narrow v, s')"
        using r v(1) by (simp add: ieee754_sel)
      then show ?thesis using n unfolding not_negative_iff by blast
    qed
  qed
qed

lemma binary64_tenth: "binary64 (1 / 10) = Finite (3602879701896397 / 36028797018963968)"
  by (rule binary64_eval[of "- 4" _ 7205759403792794]) (simp_all add: pow2_def)

lemma ieee_frac_digit:
  assumes "is_digit y" "y \<noteq> ig" "0 \<le> f" "of_int (uint y - 48) = d"
    and "binary64 (f * (3602879701896397 / 36028797018963968)) = Finite f1"
    and "binary64 (f1 * d) = Finite p"
    and "binary64 (v + p) = Finite v1"
  shows "parseFloat_accum ieee754 ig (uint y) (neg, True, Finite v, Finite f)
         = (neg, True, Finite v1, Finite f1)"
proof -
  have y: "y \<noteq> 45" "y \<noteq> 46" using assms(1) not_digit_45 by auto
  have c: "48 \<le> uint y" using assms(1) by (rule is_digit_uint)
  have c9: "uint y \<le> 57" using assms(1) by (simp add: is_digit_def word_le_def)
  have "0 \<le> uint y - 48" using c by simp
  then have "(0 :: rat) \<le> of_int (uint y - 48)" by (simp only: of_int_0_le_iff)
  then have d0: "0 \<le> d" unfolding assms(4) .
  have l: "binary64 (of_int (uint y - 48)) = Finite d"
    unfolding assms(4)[symmetric] using c c9 by (intro binary64_int) simp_all
  have m1: "ieee_mul (Finite f) (Finite (3602879701896397 / 36028797018963968)) = Finite f1"
    using ieee_mul_nat[OF assms(3), of "3602879701896397 / 36028797018963968"] assms(5) by simp
  have "not_negative (binary64 (f * (3602879701896397 / 36028797018963968)))"
    using assms(3) by (intro not_negative_binary64) simp
  then have f1: "0 \<le> f1" unfolding assms(5) by (simp add: not_negative_def)
  have m2: "ieee_mul (Finite f1) (Finite d) = Finite p"
    using ieee_mul_nat[OF f1 d0] assms(6) by simp
  have a: "ieee_add (Finite v) (Finite p) = Finite v1" using assms(7) by simp
  show ?thesis
    unfolding parseFloat_accum_byte ieee754_sel binary64_tenth l m1 m2 a using assms(1,2) y by simp
qed

lemma ieee_point:
  "ig \<noteq> 46 \<Longrightarrow> parseFloat_accum ieee754 ig (uint (46 :: byte)) (neg, fr, v, f) = (neg, True, v, f)"
  using parseFloat_accum_byte[of ieee754 ig 46 neg fr v f] by simp

section \<open>The examples of \<^verbatim>\<open>parseFloat\<close> in IEEE 754 arithmetic\<close>

text \<open>
  The accumulation of \<^verbatim>\<open>"3.14"\<close>, rounding by rounding. The integer part is 3. The first
  digit after the point makes the scale the \<^verbatim>\<open>double\<close> nearest to 0.1, which is
  \<open>3602879701896397 / 2^55\<close>, and the value \<open>6980579422424269 / 2^51\<close>; the second makes
  the scale \<open>1441151880758559 / 2^57\<close> and the value \<open>7070651414971679 / 2^51\<close>. The
  \<^verbatim>\<open>float\<close> nearest to that value is \<open>13170115 / 2^22\<close>, which is also the \<^verbatim>\<open>float\<close>
  nearest to 3.14.
\<close>

lemma ieee_digit_1_after_3:
  "parseFloat_accum ieee754 NO_IGNORE_CHAR (uint (49 :: byte)) (neg, True, Finite 3, Finite 1)
   = (neg, True, Finite (6980579422424269 / 2251799813685248), Finite (3602879701896397 / 36028797018963968))"
proof (rule ieee_frac_digit[where d = 1 and p = "3602879701896397 / 36028797018963968"])
  show "binary64 (1 * (3602879701896397 / 36028797018963968)) = Finite (3602879701896397 / 36028797018963968)"
    by (rule binary64_eval[of "- 4" _ 7205759403792794]) (simp_all add: pow2_def)
  show "binary64 (3602879701896397 / 36028797018963968 * 1) = Finite (3602879701896397 / 36028797018963968)"
    by (rule binary64_eval[of "- 4" _ 7205759403792794]) (simp_all add: pow2_def)
  show "binary64 (3 + 3602879701896397 / 36028797018963968) = Finite (6980579422424269 / 2251799813685248)"
    by (rule binary64_eval[of 1 _ 6980579422424269]) (simp_all add: pow2_def)
qed (simp_all add: is_digit_def NO_IGNORE_CHAR_def)

lemma ieee_digit_4_after_3_1:
  "parseFloat_accum ieee754 NO_IGNORE_CHAR (uint (52 :: byte))
     (neg, True, Finite (6980579422424269 / 2251799813685248), Finite (3602879701896397 / 36028797018963968))
   = (neg, True, Finite (7070651414971679 / 2251799813685248), Finite (1441151880758559 / 144115188075855872))"
proof (rule ieee_frac_digit[where d = 4 and p = "1441151880758559 / 36028797018963968"])
  show "binary64 (3602879701896397 / 36028797018963968 * (3602879701896397 / 36028797018963968)) = Finite (1441151880758559 / 144115188075855872)"
    by (rule binary64_eval[of "- 7" _ 5764607523034236]) (simp_all add: pow2_def)
  show "binary64 (1441151880758559 / 144115188075855872 * 4) = Finite (1441151880758559 / 36028797018963968)"
    by (rule binary64_eval[of "- 5" _ 5764607523034236]) (simp_all add: pow2_def)
  show "binary64 (6980579422424269 / 2251799813685248 + 1441151880758559 / 36028797018963968) = Finite (7070651414971679 / 2251799813685248)"
    by (rule binary64_eval[of 1 _ 7070651414971679]) (simp_all add: pow2_def)
qed (simp_all add: is_digit_def NO_IGNORE_CHAR_def)

lemma ieee_fold_3_14:
  "foldl (\<lambda>a y. parseFloat_accum ieee754 NO_IGNORE_CHAR (uint y) a)
     (neg, False, Finite 0, Finite 1) (bytes ''3.14'')
   = (neg, True, Finite (7070651414971679 / 2251799813685248), Finite (1441151880758559 / 144115188075855872))"
proof -
  have s0: "parseFloat_accum ieee754 NO_IGNORE_CHAR (uint (51 :: byte)) (neg, False, Finite 0, Finite 1)
            = (neg, False, Finite 3, Finite 1)"
    using ieee_int_digit[of 51 NO_IGNORE_CHAR 0 neg "Finite 1"]
    by (simp add: is_digit_def NO_IGNORE_CHAR_def)
  have s1: "parseFloat_accum ieee754 NO_IGNORE_CHAR (uint (46 :: byte)) (neg, False, Finite 3, Finite 1)
            = (neg, True, Finite 3, Finite 1)"
    by (rule ieee_point) (simp add: NO_IGNORE_CHAR_def)
  have b: "bytes ''3.14'' = [51, 46, 49, 52]" by (simp add: bytes_def)
  show ?thesis
    unfolding b
    by (simp only: foldl_Cons foldl_Nil s0 s1 ieee_digit_1_after_3 ieee_digit_4_after_3_1)
qed

lemma ieee_fold_1_5:
  "foldl (\<lambda>a y. parseFloat_accum ieee754 NO_IGNORE_CHAR (uint y) a)
     (neg, False, Finite 0, Finite 1) (bytes ''1.5'')
   = (neg, True, Finite (3 / 2), Finite (3602879701896397 / 36028797018963968))"
proof -
  have s0: "parseFloat_accum ieee754 NO_IGNORE_CHAR (uint (49 :: byte)) (neg, False, Finite 0, Finite 1)
            = (neg, False, Finite 1, Finite 1)"
    using ieee_int_digit[of 49 NO_IGNORE_CHAR 0 neg "Finite 1"]
    by (simp add: is_digit_def NO_IGNORE_CHAR_def)
  have s1: "parseFloat_accum ieee754 NO_IGNORE_CHAR (uint (46 :: byte)) (neg, False, Finite 1, Finite 1)
            = (neg, True, Finite 1, Finite 1)"
    by (rule ieee_point) (simp add: NO_IGNORE_CHAR_def)
  have s2: "parseFloat_accum ieee754 NO_IGNORE_CHAR (uint (53 :: byte)) (neg, True, Finite 1, Finite 1)
            = (neg, True, Finite (3 / 2), Finite (3602879701896397 / 36028797018963968))"
  proof (rule ieee_frac_digit[where d = 5 and p = "1 / 2"])
    show "binary64 (1 * (3602879701896397 / 36028797018963968)) = Finite (3602879701896397 / 36028797018963968)"
      by (rule binary64_eval[of "- 4" _ 7205759403792794]) (simp_all add: pow2_def)
    show "binary64 (3602879701896397 / 36028797018963968 * 5) = Finite (1 / 2)"
      by (rule binary64_eval[of "- 1" _ 4503599627370496]) (simp_all add: pow2_def)
    show "binary64 (1 + 1 / 2) = Finite (3 / 2)"
      by (rule binary64_eval[of 0 _ 6755399441055744]) (simp_all add: pow2_def)
  qed (simp_all add: is_digit_def NO_IGNORE_CHAR_def)
  have b: "bytes ''1.5'' = [49, 46, 53]" by (simp add: bytes_def)
  show ?thesis unfolding b by (simp only: foldl_Cons foldl_Nil s0 s1 s2)
qed

lemma accumulated_ieee_3_14:
  assumes "sg = [] \<or> sg = [45]"
  shows "accumulated ieee754 NO_IGNORE_CHAR (sg @ bytes ''3'' @ 46 # bytes ''14'')
         = Finite (7070651414971679 / 2251799813685248)"
proof -
  have b: "bytes ''3'' @ 46 # bytes ''14'' = bytes ''3.14''" by (simp add: bytes_def)
  have i: "NO_IGNORE_CHAR \<notin> set sg" using assms by (auto simp: NO_IGNORE_CHAR_def)
  show ?thesis
    unfolding accumulated_def b ieee754_sel binary64_0 binary64_1 foldl_append
      ieee_fold_sign[OF assms i] ieee_fold_3_14
    by simp
qed

lemma accumulated_ieee_1_5:
  assumes "sg = [] \<or> sg = [45]"
  shows "accumulated ieee754 NO_IGNORE_CHAR (sg @ bytes ''1'' @ 46 # bytes ''5'') = Finite (3 / 2)"
proof -
  have b: "bytes ''1'' @ 46 # bytes ''5'' = bytes ''1.5''" by (simp add: bytes_def)
  have i: "NO_IGNORE_CHAR \<notin> set sg" using assms by (auto simp: NO_IGNORE_CHAR_def)
  show ?thesis
    unfolding accumulated_def b ieee754_sel binary64_0 binary64_1 foldl_append
      ieee_fold_sign[OF assms i] ieee_fold_1_5
    by simp
qed

lemma binary32_3_14:
  "binary32 (7070651414971679 / 2251799813685248) = Finite (13170115 / 4194304)"
  by (rule binary32_eval[of 1 _ 13170115]) (simp_all add: pow2_def)

lemma binary32_nearest_3_14: "binary32 (314 / 100) = Finite (13170115 / 4194304)"
  by (rule binary32_eval[of 1 _ 13170115]) (simp_all add: pow2_def)

lemma binary32_uminus_3_14:
  "binary32 (- (7070651414971679 / 2251799813685248)) = Finite (- (13170115 / 4194304))"
proof -
  have "binary32 (- (7070651414971679 / 2251799813685248)) = ieee_neg (binary32 (7070651414971679 / 2251799813685248))"
    unfolding binary32_def by (rule round_to_uminus) simp
  then show ?thesis unfolding binary32_3_14 by simp
qed

lemma binary32_1_5: "binary32 (3 / 2) = Finite (3 / 2)"
  by (rule binary32_eval[of 0 _ 12582912]) (simp_all add: pow2_def)

lemma binary32_uminus_1_5: "binary32 (- (3 / 2)) = Finite (- (3 / 2))"
proof -
  have "binary32 (- (3 / 2)) = ieee_neg (binary32 (3 / 2))"
    unfolding binary32_def by (rule round_to_uminus) simp
  then show ?thesis unfolding binary32_1_5 by simp
qed

lemma binary32_uminus_int:
  assumes "0 < n" "n < 2 ^ 24"
  shows "binary32 (- of_int n) = Finite (- of_int n)"
proof -
  have "(0 :: rat) < of_int n" using assms(1) by simp
  then have "binary32 (- of_int n) = ieee_neg (binary32 (of_int n))"
    unfolding binary32_def by (rule round_to_uminus)
  also have "\<dots> = ieee_neg (Finite (of_int n))" using binary32_int[of n] assms by simp
  also have "\<dots> = Finite (- of_int n)" using assms(1) by simp
  finally show ?thesis .
qed

lemma parseFloat_ieee_3_14:
  "\<exists>s'. parseFloat ieee754 SKIP_ALL NO_IGNORE_CHAR (stream_of ''3.14,'')
          = Some (Finite (13170115 / 4194304), s')
        \<and> input s' = bytes '',''"
proof -
  have "\<exists>s'. parseFloat ieee754 SKIP_ALL NO_IGNORE_CHAR (stream_of ''3.14,'')
           = Some (narrow ieee754
                     (if ([] :: byte list) = []
                      then accumulated ieee754 NO_IGNORE_CHAR ([] @ bytes ''3'' @ 46 # bytes ''14'')
                      else dneg ieee754
                             (accumulated ieee754 NO_IGNORE_CHAR ([] @ bytes ''3'' @ 46 # bytes ''14''))),
                   s')
         \<and> input s' = 44 # []"
    by (rule parseFloat_point_any[where junk = "[]"])
       (simp_all add: stream_of_def bytes_def is_digit_def NO_IGNORE_CHAR_def)
  then show ?thesis
    unfolding accumulated_ieee_3_14[of "[]", OF disjI1[OF refl]]
    by (simp add: ieee754_sel binary32_3_14 bytes_def)
qed

lemma parseFloat_ieee_1_5:
  "\<exists>s'. parseFloat ieee754 SKIP_ALL NO_IGNORE_CHAR (stream_of ''1.5.25'')
          = Some (Finite (3 / 2), s')
        \<and> input s' = bytes ''.25''"
proof -
  have "\<exists>s'. parseFloat ieee754 SKIP_ALL NO_IGNORE_CHAR (stream_of ''1.5.25'')
           = Some (narrow ieee754
                     (if ([] :: byte list) = []
                      then accumulated ieee754 NO_IGNORE_CHAR ([] @ bytes ''1'' @ 46 # bytes ''5'')
                      else dneg ieee754
                             (accumulated ieee754 NO_IGNORE_CHAR ([] @ bytes ''1'' @ 46 # bytes ''5''))),
                   s')
         \<and> input s' = 46 # bytes ''25''"
    by (rule parseFloat_point_any[where junk = "[]"])
       (simp_all add: stream_of_def bytes_def is_digit_def NO_IGNORE_CHAR_def)
  then show ?thesis
    unfolding accumulated_ieee_1_5[of "[]", OF disjI1[OF refl]]
    by (simp add: ieee754_sel binary32_1_5 bytes_def)
qed

lemma parseFloat_ieee_minus_1_5:
  "\<exists>s'. parseFloat ieee754 SKIP_ALL NO_IGNORE_CHAR (stream_of ''-1.5-2'')
          = Some (Finite (- (3 / 2)), s')
        \<and> input s' = bytes ''-2''"
proof -
  have "\<exists>s'. parseFloat ieee754 SKIP_ALL NO_IGNORE_CHAR (stream_of ''-1.5-2'')
           = Some (narrow ieee754
                     (if [45 :: byte] = []
                      then accumulated ieee754 NO_IGNORE_CHAR ([45] @ bytes ''1'' @ 46 # bytes ''5'')
                      else dneg ieee754
                             (accumulated ieee754 NO_IGNORE_CHAR ([45] @ bytes ''1'' @ 46 # bytes ''5''))),
                   s')
         \<and> input s' = 45 # bytes ''2''"
    by (rule parseFloat_point_any[where junk = "[]"])
       (simp_all add: stream_of_def bytes_def is_digit_def NO_IGNORE_CHAR_def)
  then show ?thesis
    unfolding accumulated_ieee_1_5[of "[45]", OF disjI2[OF refl]]
    by (simp add: ieee754_sel binary32_uminus_1_5 bytes_def)
qed

lemma parseFloat_ieee_12:
  "\<exists>s'. parseFloat ieee754 SKIP_ALL NO_IGNORE_CHAR (stream_of ''12-3'') = Some (Finite 12, s')
        \<and> input s' = bytes ''-3''"
proof -
  have a: "accumulated ieee754 NO_IGNORE_CHAR ([] @ bytes ''12'') = Finite 12"
    using accumulated_ieee_plain[of "[]" "bytes ''12''" NO_IGNORE_CHAR]
    by (simp add: bytes_def is_digit_def NO_IGNORE_CHAR_def decimal_from_def)
  have "\<exists>s'. parseFloat ieee754 SKIP_ALL NO_IGNORE_CHAR (stream_of ''12-3'')
           = Some (narrow ieee754
                     (if ([] :: byte list) = []
                      then accumulated ieee754 NO_IGNORE_CHAR ([] @ bytes ''12'')
                      else dneg ieee754 (accumulated ieee754 NO_IGNORE_CHAR ([] @ bytes ''12''))),
                   s')
         \<and> input s' = 45 # bytes ''3''"
    by (rule parseFloat_plain_any[where junk = "[]"])
       (simp_all add: stream_of_def bytes_def is_digit_def NO_IGNORE_CHAR_def)
  then show ?thesis
    unfolding a using binary32_int[of 12] by (simp add: ieee754_sel bytes_def)
qed

text \<open>
  The conversion of the result to \<^verbatim>\<open>float\<close> rounds: 16777217 is \<open>2^24 + 1\<close>, half way
  between two \<^verbatim>\<open>float\<close> values, and \<^verbatim>\<open>parseFloat\<close> returns 16777216 on \<^verbatim>\<open>"16777217,"\<close>.
\<close>

lemma binary32_tie: "binary32 16777217 = Finite 16777216"
  by (rule binary32_eval_tie[of 24 _ 8388608]) (simp_all add: pow2_def)

lemma parseFloat_ieee_16777217:
  "\<exists>s'. parseFloat ieee754 SKIP_ALL NO_IGNORE_CHAR (stream_of ''16777217,'')
          = Some (Finite 16777216, s')
        \<and> input s' = bytes '',''"
proof -
  have a: "accumulated ieee754 NO_IGNORE_CHAR ([] @ bytes ''16777217'') = Finite 16777217"
    using accumulated_ieee_plain[of "[]" "bytes ''16777217''" NO_IGNORE_CHAR]
    by (simp add: bytes_def is_digit_def NO_IGNORE_CHAR_def decimal_from_def)
  have "\<exists>s'. parseFloat ieee754 SKIP_ALL NO_IGNORE_CHAR (stream_of ''16777217,'')
           = Some (narrow ieee754
                     (if ([] :: byte list) = []
                      then accumulated ieee754 NO_IGNORE_CHAR ([] @ bytes ''16777217'')
                      else dneg ieee754 (accumulated ieee754 NO_IGNORE_CHAR ([] @ bytes ''16777217''))),
                   s')
         \<and> input s' = 44 # []"
    by (rule parseFloat_plain_any[where junk = "[]"])
       (simp_all add: stream_of_def bytes_def is_digit_def NO_IGNORE_CHAR_def)
  then show ?thesis
    unfolding a by (simp add: ieee754_sel binary32_tie bytes_def)
qed

section \<open>A parse that does not return\<close>

text \<open>
  With the ignore character 255, the byte \<^verbatim>\<open>(char)c\<close> of the sentinel \<open>-1\<close>, the loop of
  \<^verbatim>\<open>parseInt\<close> takes the end of the input for an ignore character and goes on for ever:
  when the token runs to the end of the waiting bytes there is no result.
\<close>

lemma parseInt_loop_exhausted:
  fixes s :: "'w::len word stream" and acc :: "bool \<times> 'l::len word"
  assumes "input s = []"
  shows "parseInt_loop 255 c acc s = None"
proof (rule ccontr)
  assume "parseInt_loop 255 c acc s \<noteq> None"
  then obtain y where y: "parseInt_loop 255 c acc s = Some y" by auto
  have "\<not> ((255 :: byte) = 255 \<and> input s = [])"
  proof (rule parseInt_loop.raw_induct[where P = "\<lambda>ig c a s y. \<not> (ig = 255 \<and> input s = [])", OF _ y])
    fix f :: "byte \<Rightarrow> int \<Rightarrow> bool \<times> 'l word \<Rightarrow> 'w word stream
                \<Rightarrow> ((bool \<times> 'l word) \<times> 'w word stream) option"
      and ig c0 acc0 s0 y0
    assume IH: "\<And>ig c a s y. f ig c a s = Some y \<Longrightarrow> \<not> (ig = 255 \<and> input s = [])"
      and eq: "(let acc1 = parseInt_accum ig c0 acc0; s1 = snd (read s0);
                    (c1, s2) = timedPeek s1
                in if 48 \<le> c1 \<and> c1 \<le> 57 \<or> word_of_int c1 = ig
                   then f ig c1 acc1 s2 else Some (acc1, s2)) = Some y0"
    show "\<not> (ig = 255 \<and> input s0 = [])"
    proof
      assume b: "ig = 255 \<and> input s0 = []"
      let ?s1 = "snd (read s0)"
      have i1: "input ?s1 = []" using b by (simp add: input_read)
      have pk: "fst (timedPeek ?s1) = - 1" "input (snd (timedPeek ?s1)) = []"
        using i1 by (simp_all add: fst_timedPeek input_timedPeek)
      have "f ig (- 1) (parseInt_accum ig c0 acc0) (snd (timedPeek ?s1)) = Some y0"
        using eq b pk(1) by (simp add: split_def Let_def)
      from IH[OF this] show False using b pk(2) by simp
    qed
  qed
  then show False using assms by simp
qed

lemma parseInt_loop_never_returns:
  fixes s :: "'w::len word stream" and acc :: "bool \<times> 'l::len word"
  assumes "input s = b # tok" "\<forall>y\<in>set tok. is_digit y \<or> y = 255"
  shows "parseInt_loop 255 (uint b) acc s = None"
  using assms
proof (induction tok arbitrary: b acc s)
  case Nil
  let ?s2 = "snd (timedPeek (snd (read s)))"
  have pk: "fst (timedPeek (snd (read s))) = - 1" "input ?s2 = []"
    using peek_after_read[OF Nil.prems(1)] by simp_all
  have "parseInt_loop 255 (uint b) acc s
      = parseInt_loop 255 (- 1) (parseInt_accum 255 (uint b) acc) ?s2"
    using pk(1) by (subst parseInt_loop.simps) (simp add: split_def Let_def)
  then show ?case using parseInt_loop_exhausted[OF pk(2)] by simp
next
  case (Cons y tok)
  let ?s2 = "snd (timedPeek (snd (read s)))"
  have pk: "fst (timedPeek (snd (read s))) = uint y" "input ?s2 = y # tok"
    using peek_after_read[OF Cons.prems(1)] by simp_all
  have c: "is_digit y \<or> y = 255" using Cons.prems(2) by simp
  have "parseInt_loop 255 (uint b) acc s
      = parseInt_loop 255 (uint y) (parseInt_accum 255 (uint b) acc) ?s2"
    using pk(1) c by (subst parseInt_loop.simps) (auto simp: split_def Let_def uint_byte_simps)
  then show ?case using Cons.IH[OF pk(2)] Cons.prems(2) by simp
qed

lemma parseInt_never_returns_example:
  "parseInt SKIP_ALL 255 (stream_of ''12'') = (None :: (32 word \<times> 32 word stream) option)"
proof -
  let ?p = "peekNextDigit SKIP_ALL False (stream_of ''12'')"
  have p: "fst ?p = uint (49 :: byte)" "input (snd ?p) = 49 # [50]"
    using pnd_start[of "stream_of ''12''" 49 "[50]" False SKIP_ALL]
    by (simp_all add: stream_of_def bytes_def starts_def is_digit_def)
  have "parseInt_loop 255 (uint (49 :: byte)) (False, 0 :: 32 word) (snd ?p) = None"
    by (rule parseInt_loop_never_returns[OF p(2)]) (simp add: is_digit_def)
  then show ?thesis using p(1) by (simp add: parseInt_def split_def)
qed

section \<open>The claims on the parsers\<close>

text \<open>
  C5. When the waiting bytes are: bytes the lookahead discards, then a byte it stops at
  (a \<^verbatim>\<open>'-'\<close> or a digit), then digits and ignore characters, then a byte \<open>x\<close> that is
  neither a digit nor the ignore character, \<^verbatim>\<open>parseInt\<close> returns the number of the token
  and leaves the stream at \<open>x\<close>, which it has not consumed. On \<^verbatim>\<open>"   -42abc"\<close>,
  \<^verbatim>\<open>parseInt(SKIP_ALL)\<close> returns \<open>-42\<close> and leaves \<^verbatim>\<open>"abc"\<close>.
\<close>

theorem parseInt_stops_at_first_other_byte:
  "(input s = junk @ b # tok @ x # rest
      \<and> (\<forall>y\<in>set junk. \<not> starts False y \<and> skipped lookahead y) \<and> starts False b
      \<and> (\<forall>y\<in>set tok. is_digit y \<or> y = ignore) \<and> \<not> is_digit x \<and> x \<noteq> ignore
    \<longrightarrow> (\<exists>s'. parseInt lookahead ignore s
               = Some (word_of_int (int_value ignore (b # tok)) :: 'l::len word, s')
             \<and> input s' = x # rest))
   \<and> (\<exists>s'. parseInt SKIP_ALL NO_IGNORE_CHAR (stream_of ''   -42abc'')
               = Some (- 42 :: 'l word, s')
           \<and> input s' = bytes ''abc'')"
proof (intro conjI impI)
  assume "input s = junk @ b # tok @ x # rest
      \<and> (\<forall>y\<in>set junk. \<not> starts False y \<and> skipped lookahead y) \<and> starts False b
      \<and> (\<forall>y\<in>set tok. is_digit y \<or> y = ignore) \<and> \<not> is_digit x \<and> x \<noteq> ignore"
  then show "\<exists>s'. parseInt lookahead ignore s
               = Some (word_of_int (int_value ignore (b # tok)) :: 'l word, s')
             \<and> input s' = x # rest"
    using parseInt_token[of s junk b tok x rest lookahead ignore] by blast
next
  have "\<exists>s'. parseInt SKIP_ALL NO_IGNORE_CHAR (stream_of ''   -42abc'')
               = Some (word_of_int (int_value NO_IGNORE_CHAR (45 # bytes ''42'')) :: 'l word, s')
           \<and> input s' = 97 # bytes ''bc''"
    by (rule parseInt_token[where junk = "bytes ''   ''"])
       (simp_all add: stream_of_def bytes_def starts_def skipped_def is_digit_def
          NO_IGNORE_CHAR_def)
  moreover have "int_value NO_IGNORE_CHAR (45 # bytes ''42'') = - 42"
    by (simp add: int_value_def bytes_def is_digit_def NO_IGNORE_CHAR_def decimal_from_def)
  ultimately show "\<exists>s'. parseInt SKIP_ALL NO_IGNORE_CHAR (stream_of ''   -42abc'')
               = Some (- 42 :: 'l word, s')
           \<and> input s' = bytes ''abc''"
    by (simp add: bytes_def)
qed

theorem parseInt_stops_at_first_other_byte_witness:
  "starts False 45 \<and> \<not> is_digit 97 \<and> 97 \<noteq> NO_IGNORE_CHAR
   \<and> (\<exists>s'. parseInt SKIP_ALL NO_IGNORE_CHAR (stream_of ''   -42abc'')
               = Some (- 42 :: 32 word, s')
           \<and> input s' = bytes ''abc'')"
proof -
  have h: "input (stream_of ''   -42abc'') = bytes ''   '' @ 45 # bytes ''42'' @ 97 # bytes ''bc''
      \<and> (\<forall>y\<in>set (bytes ''   ''). \<not> starts False y \<and> skipped SKIP_ALL y) \<and> starts False 45
      \<and> (\<forall>y\<in>set (bytes ''42''). is_digit y \<or> y = NO_IGNORE_CHAR) \<and> \<not> is_digit 97
      \<and> 97 \<noteq> NO_IGNORE_CHAR"
    by (simp add: stream_of_def bytes_def starts_def skipped_def is_digit_def NO_IGNORE_CHAR_def)
  have v: "int_value NO_IGNORE_CHAR (45 # bytes ''42'') = - 42"
    by (simp add: int_value_def bytes_def is_digit_def NO_IGNORE_CHAR_def decimal_from_def)
  have "\<exists>s'. parseInt SKIP_ALL NO_IGNORE_CHAR (stream_of ''   -42abc'')
               = Some (word_of_int (int_value NO_IGNORE_CHAR (45 # bytes ''42'')) :: 32 word, s')
           \<and> input s' = 97 # bytes ''bc''"
    using parseInt_stops_at_first_other_byte[where 'l = 32, of "stream_of ''   -42abc''"
        "bytes ''   ''" 45 "bytes ''42''" 97 "bytes ''bc''" SKIP_ALL NO_IGNORE_CHAR] h
    by blast
  then show ?thesis using h unfolding v by (simp add: bytes_def)
qed


text \<open>
  C6. Whenever the lookahead fails (returns a negative value) \<^verbatim>\<open>parseInt\<close> returns 0 in
  the state the lookahead left; the lookahead fails when no byte arrives before the deadline;
  and under \<^verbatim>\<open>SKIP_NONE\<close>, when the first waiting byte is not a sign, a digit or an enabled
  decimal point, the lookahead fails with every byte still waiting, so that \<^verbatim>\<open>parseInt\<close>
  returns 0 and the bytes of the stream are as before.
\<close>

theorem parseInt_zero_on_failed_lookahead:
  "(fst (peekNextDigit lookahead False s) < 0
      \<longrightarrow> parseInt lookahead ignore s
            = Some (0 :: 'l::len word, snd (peekNextDigit lookahead False s)))
   \<and> (input s = []
      \<longrightarrow> fst (peekNextDigit lookahead detectDecimal s) = - 1)
   \<and> (input s = b # bs \<and> \<not> starts detectDecimal b
      \<longrightarrow> fst (peekNextDigit SKIP_NONE detectDecimal s) = - 1
          \<and> input (snd (peekNextDigit SKIP_NONE detectDecimal s)) = b # bs)
   \<and> (input s = b # bs \<and> \<not> starts False b
      \<longrightarrow> (\<exists>s'. parseInt SKIP_NONE ignore s = Some (0 :: 'l word, s')
                \<and> input s' = b # bs))"
proof (intro conjI impI)
  assume "fst (peekNextDigit lookahead False s) < 0"
  then show "parseInt lookahead ignore s
            = Some (0 :: 'l word, snd (peekNextDigit lookahead False s))"
    by (simp add: parseInt_def split_def)
next
  assume "input s = []"
  then show "fst (peekNextDigit lookahead detectDecimal s) = - 1"
    using pnd_Nil[of s lookahead detectDecimal] by simp
next
  assume a: "input s = b # bs \<and> \<not> starts detectDecimal b"
  then have r: "fst (peekNextDigit SKIP_NONE detectDecimal s) = - 1
          \<and> input (snd (peekNextDigit SKIP_NONE detectDecimal s)) = b # bs"
    using pnd_reject[of s b bs detectDecimal SKIP_NONE] by (simp add: skipped_def)
  from r show "fst (peekNextDigit SKIP_NONE detectDecimal s) = - 1" ..
  from r show "input (snd (peekNextDigit SKIP_NONE detectDecimal s)) = b # bs" ..
next
  assume a: "input s = b # bs \<and> \<not> starts False b"
  then have r: "fst (peekNextDigit SKIP_NONE False s) = - 1"
       "input (snd (peekNextDigit SKIP_NONE False s)) = b # bs"
    using pnd_reject[of s b bs False SKIP_NONE] by (simp_all add: skipped_def)
  have "parseInt SKIP_NONE ignore s = Some (0 :: 'l word, snd (peekNextDigit SKIP_NONE False s))"
    using r(1) by (simp add: parseInt_def split_def)
  then show "\<exists>s'. parseInt SKIP_NONE ignore s = Some (0 :: 'l word, s') \<and> input s' = b # bs"
    using r(2) by blast
qed

theorem parseInt_zero_on_failed_lookahead_witness:
  "\<not> starts False 120
   \<and> fst (peekNextDigit SKIP_NONE False (stream_of ''x12'')) = - 1
   \<and> (\<exists>s'. parseInt SKIP_NONE NO_IGNORE_CHAR (stream_of ''x12'') = Some (0 :: 32 word, s')
           \<and> input s' = bytes ''x12'')
   \<and> fst (peekNextDigit SKIP_ALL False (stream_of ''xyz'')) < 0
   \<and> parseInt SKIP_ALL NO_IGNORE_CHAR (stream_of ''xyz'')
       = Some (0 :: 32 word, snd (peekNextDigit SKIP_ALL False (stream_of ''xyz'')))"
proof -
  have h: "input (stream_of ''x12'') = 120 # bytes ''12'' \<and> \<not> starts False 120"
    by (simp add: stream_of_def bytes_def starts_def is_digit_def)
  have f: "fst (peekNextDigit SKIP_ALL False (stream_of ''xyz'')) < 0"
    using pnd_total[of SKIP_ALL False "stream_of ''xyz''"]
    by (simp add: stream_of_def bytes_def starts_def is_digit_def skipped_def)
  note t1 = parseInt_zero_on_failed_lookahead[where 'l = 32, of SKIP_ALL "stream_of ''x12''"
      NO_IGNORE_CHAR False 120 "bytes ''12''"]
  note t2 = parseInt_zero_on_failed_lookahead[where 'l = 32, of SKIP_ALL "stream_of ''xyz''"
      NO_IGNORE_CHAR False 120 "bytes ''12''"]
  show ?thesis using t1 t2 h f by (simp add: bytes_def)
qed

text \<open>
  C4, as the code has it. A \<^verbatim>\<open>'-'\<close> is accepted as the first byte of the token only (the
  byte the lookahead stops at). When the token is an optional \<^verbatim>\<open>'-'\<close> and one or more
  digits (for \<^verbatim>\<open>parseFloat\<close> also with a decimal point and further digits), none of them
  the ignore character, and a \<^verbatim>\<open>'-'\<close> that is not the ignore character follows, the scan
  ends there: that \<^verbatim>\<open>'-'\<close> is left in the stream and the result is negative exactly when
  the token began with \<^verbatim>\<open>'-'\<close>: \<^verbatim>\<open>parseInt\<close> returns the number of the digits with that
  sign, and \<^verbatim>\<open>parseFloat\<close>, in any arithmetic, the value accumulated over the token,
  negated or not by that sign. In the IEEE 754 arithmetic of the program the value
  accumulated over a token without a decimal point is the number of the digits, as long as
  that number plus 48 is below \<open>2^53\<close>; on \<^verbatim>\<open>"-1.5-2"\<close> \<^verbatim>\<open>parseFloat\<close> returns \<open>-1.5\<close> and
  leaves \<^verbatim>\<open>"-2"\<close>.
\<close>

theorem minus_after_digits_ends_the_scan:
  "ignore \<noteq> 45 \<and> (sg = [] \<or> sg = [45]) \<and> ds \<noteq> [] \<and> (\<forall>y\<in>set ds. is_digit y)
     \<and> ignore \<notin> set ds \<longrightarrow>
   (input s = junk @ sg @ ds @ 45 # rest
      \<and> (\<forall>y\<in>set junk. \<not> starts False y \<and> skipped lookahead y)
    \<longrightarrow> (\<exists>s'. parseInt lookahead ignore s
               = Some (word_of_int ((if sg = [] then 1 else - 1) * decimal_from 0 ds)
                        :: 'l::len word, s')
             \<and> input s' = 45 # rest))
   \<and> (input s = junk @ sg @ ds @ 45 # rest
      \<and> (\<forall>y\<in>set junk. \<not> starts True y \<and> skipped lookahead y)
    \<longrightarrow> (\<exists>s'. parseFloat F lookahead ignore s
               = Some (narrow F (if sg = [] then accumulated F ignore (sg @ ds)
                                 else dneg F (accumulated F ignore (sg @ ds))), s')
             \<and> input s' = 45 # rest))
   \<and> (decimal_from 0 ds + 48 < 2 ^ 53
    \<longrightarrow> accumulated ieee754 ignore (sg @ ds) = Finite (of_int (decimal_from 0 ds)))
   \<and> (input s = junk @ sg @ ds @ 46 # ds2 @ 45 # rest
      \<and> (\<forall>y\<in>set junk. \<not> starts True y \<and> skipped lookahead y)
      \<and> (\<forall>y\<in>set ds2. is_digit y) \<and> ignore \<notin> set ds2 \<and> ignore \<noteq> 46
    \<longrightarrow> (\<exists>s'. parseFloat F lookahead ignore s
               = Some (narrow F (if sg = [] then accumulated F ignore (sg @ ds @ 46 # ds2)
                                 else dneg F (accumulated F ignore (sg @ ds @ 46 # ds2))), s')
             \<and> input s' = 45 # rest))
   \<and> (\<exists>s'. parseFloat ieee754 SKIP_ALL NO_IGNORE_CHAR (stream_of ''-1.5-2'')
               = Some (Finite (- (3 / 2)), s')
          \<and> input s' = bytes ''-2'')"
proof (intro impI conjI)
  assume a: "ignore \<noteq> 45 \<and> (sg = [] \<or> sg = [45]) \<and> ds \<noteq> [] \<and> (\<forall>y\<in>set ds. is_digit y)
     \<and> ignore \<notin> set ds"
  then have ig: "ignore \<noteq> 45" and sg: "sg = [] \<or> sg = [45]" and ne: "ds \<noteq> []"
    and dg: "\<forall>y\<in>set ds. is_digit y" and ni: "ignore \<notin> set ds" by blast+
  have nis: "ignore \<notin> set (sg @ ds)" using sg ig ni by auto
  show "\<exists>s'. parseFloat ieee754 SKIP_ALL NO_IGNORE_CHAR (stream_of ''-1.5-2'')
               = Some (Finite (- (3 / 2)), s')
          \<and> input s' = bytes ''-2''"
    by (rule parseFloat_ieee_minus_1_5)
  {
    assume "decimal_from 0 ds + 48 < 2 ^ 53"
    then show "accumulated ieee754 ignore (sg @ ds) = Finite (of_int (decimal_from 0 ds))"
      by (rule accumulated_ieee_plain[OF sg dg nis])
  }
  {
    assume i: "input s = junk @ sg @ ds @ 45 # rest
      \<and> (\<forall>y\<in>set junk. \<not> starts False y \<and> skipped lookahead y)"
    obtain b tok where bt: "sg @ ds = b # tok" "starts False b"
      using token_head[OF sg dg, of False] ne by (auto simp: starts_def)
    have tk: "\<forall>y\<in>set tok. is_digit y \<or> y = ignore"
    proof -
      have "set tok \<subseteq> set ds" using sg ne bt(1) by (cases ds) auto
      then show ?thesis using dg by auto
    qed
    have inp: "input s = junk @ b # tok @ 45 # rest"
    proof -
      have "input s = junk @ (sg @ ds) @ 45 # rest" using i by simp
      then show ?thesis unfolding bt(1) by simp
    qed
    obtain s' where r: "parseInt lookahead ignore s
        = Some (word_of_int (int_value ignore (b # tok)) :: 'l word, s')" "input s' = 45 # rest"
      using parseInt_token[OF inp _ bt(2) tk not_digit_45(1), of lookahead] i ig by blast
    have f1: "filter (\<lambda>y. y \<noteq> ignore) (sg @ ds) = sg @ ds"
      using nis by (simp only: filter_id_conv) blast
    have f2: "filter is_digit (sg @ ds) = ds"
      using sg dg not_digit_45 by (auto simp: filter_id_conv)
    have f3: "45 \<in> set (sg @ ds) \<longleftrightarrow> sg \<noteq> []"
      using sg dg not_digit_45 by auto
    have "int_value ignore (b # tok) = (if sg = [] then 1 else - 1) * decimal_from 0 ds"
      unfolding bt(1)[symmetric] int_value_def Let_def f1 f2 f3 by simp
    then show "\<exists>s'. parseInt lookahead ignore s
               = Some (word_of_int ((if sg = [] then 1 else - 1) * decimal_from 0 ds)
                        :: 'l word, s')
             \<and> input s' = 45 # rest"
      using r by auto
  }
  {
    assume i: "input s = junk @ sg @ ds @ 45 # rest
      \<and> (\<forall>y\<in>set junk. \<not> starts True y \<and> skipped lookahead y)"
    show "\<exists>s'. parseFloat F lookahead ignore s
               = Some (narrow F (if sg = [] then accumulated F ignore (sg @ ds)
                                 else dneg F (accumulated F ignore (sg @ ds))), s')
             \<and> input s' = 45 # rest"
      using parseFloat_plain_any[OF _ _ sg dg ne not_digit_45(1) _ _ nis,
          of s junk rest lookahead F] i ig by auto
  }
  {
    assume i: "input s = junk @ sg @ ds @ 46 # ds2 @ 45 # rest
      \<and> (\<forall>y\<in>set junk. \<not> starts True y \<and> skipped lookahead y)
      \<and> (\<forall>y\<in>set ds2. is_digit y) \<and> ignore \<notin> set ds2 \<and> ignore \<noteq> 46"
    then have n2: "ignore \<notin> set (sg @ ds @ 46 # ds2)" using nis by auto
    show "\<exists>s'. parseFloat F lookahead ignore s
               = Some (narrow F (if sg = [] then accumulated F ignore (sg @ ds @ 46 # ds2)
                                 else dneg F (accumulated F ignore (sg @ ds @ 46 # ds2))), s')
             \<and> input s' = 45 # rest"
      using parseFloat_point_any[OF _ _ sg dg _ not_digit_45(1) _ n2,
          of s junk rest lookahead F] i ig by auto
  }
qed

theorem minus_after_digits_ends_the_scan_witness:
  "(\<exists>s'. parseInt SKIP_ALL NO_IGNORE_CHAR (stream_of ''a-12-3'') = Some (- 12 :: 32 word, s')
          \<and> input s' = bytes ''-3'')
   \<and> (\<exists>s'. parseFloat ieee754 SKIP_ALL NO_IGNORE_CHAR (stream_of ''a-12-3'')
              = Some (Finite (- 12), s')
          \<and> input s' = bytes ''-3'')
   \<and> accumulated ieee754 NO_IGNORE_CHAR (bytes ''-12'') = Finite 12"
proof -
  have h: "NO_IGNORE_CHAR \<noteq> 45 \<and> ([45 :: byte] = [] \<or> [45 :: byte] = [45]) \<and> bytes ''12'' \<noteq> []
      \<and> (\<forall>y\<in>set (bytes ''12''). is_digit y) \<and> NO_IGNORE_CHAR \<notin> set (bytes ''12'')"
    by (simp add: bytes_def is_digit_def NO_IGNORE_CHAR_def)
  have i: "input (stream_of ''a-12-3'') = bytes ''a'' @ [45] @ bytes ''12'' @ 45 # bytes ''3''"
    "\<forall>y\<in>set (bytes ''a''). \<not> starts False y \<and> skipped SKIP_ALL y"
    "\<forall>y\<in>set (bytes ''a''). \<not> starts True y \<and> skipped SKIP_ALL y"
    by (simp_all add: stream_of_def bytes_def starts_def skipped_def is_digit_def)
  have d: "decimal_from 0 (bytes ''12'') = 12" by (simp add: decimal_from_def bytes_def)
  have d53: "decimal_from 0 (bytes ''12'') + 48 < 2 ^ 53" unfolding d by simp
  note t = minus_after_digits_ends_the_scan[where 'l = 32, of NO_IGNORE_CHAR "[45]" "bytes ''12''"
      "stream_of ''a-12-3''" "bytes ''a''" "bytes ''3''" SKIP_ALL ieee754]
  have a: "\<exists>s'. parseInt SKIP_ALL NO_IGNORE_CHAR (stream_of ''a-12-3'')
             = Some (word_of_int ((if [45 :: byte] = [] then 1 else - 1) * 12) :: 32 word, s')
          \<and> input s' = 45 # bytes ''3''"
    using t h i unfolding d by blast
  have b: "\<exists>s'. parseFloat ieee754 SKIP_ALL NO_IGNORE_CHAR (stream_of ''a-12-3'')
             = Some (narrow ieee754
                       (if [45 :: byte] = []
                        then accumulated ieee754 NO_IGNORE_CHAR ([45] @ bytes ''12'')
                        else dneg ieee754 (accumulated ieee754 NO_IGNORE_CHAR ([45] @ bytes ''12''))),
                     s')
          \<and> input s' = 45 # bytes ''3''"
    using t h i by blast
  have "accumulated ieee754 NO_IGNORE_CHAR ([45] @ bytes ''12'')
        = Finite (of_int (decimal_from 0 (bytes ''12'')))"
    using t h d53 by blast
  then have c: "accumulated ieee754 NO_IGNORE_CHAR ([45] @ bytes ''12'') = Finite 12"
    unfolding d by simp
  have n: "binary32 (- 12) = Finite (- 12)" using binary32_uminus_int[of 12] by simp
  have e: "bytes ''-12'' = [45] @ bytes ''12''" by (simp add: bytes_def)
  show ?thesis using a b unfolding e c by (simp add: bytes_def ieee754_sel n)
qed

text \<open>
  The claim as the specification words it (parsing continues past a \<^verbatim>\<open>'-'\<close> that follows
  digits, and the result is negated) fails: on \<^verbatim>\<open>"12-3"\<close> both parsers return 12 and leave
  \<^verbatim>\<open>"-3"\<close>.
\<close>

theorem minus_after_digits_counterexample:
  "map_option (apsnd input) (parseInt SKIP_ALL NO_IGNORE_CHAR (stream_of ''12-3''))
     = Some (12 :: 32 word, bytes ''-3'')
   \<and> map_option (apsnd input) (parseFloat ieee754 SKIP_ALL NO_IGNORE_CHAR (stream_of ''12-3''))
     = Some (Finite 12, bytes ''-3'')"
proof
  show "map_option (apsnd input) (parseInt SKIP_ALL NO_IGNORE_CHAR (stream_of ''12-3''))
     = Some (12 :: 32 word, bytes ''-3'')"
    by code_simp
  obtain s' :: "32 word stream"
    where "parseFloat ieee754 SKIP_ALL NO_IGNORE_CHAR (stream_of ''12-3'') = Some (Finite 12, s')"
      "input s' = bytes ''-3''"
    using parseFloat_ieee_12 by blast
  then show "map_option (apsnd input)
       (parseFloat ieee754 SKIP_ALL NO_IGNORE_CHAR (stream_of ''12-3''))
     = Some (Finite 12, bytes ''-3'')"
    by simp
qed

text \<open>
  C9. \<^verbatim>\<open>parseFloat\<close> on an optional \<^verbatim>\<open>'-'\<close>, digits, one decimal point and digits (none
  of them the ignore character), followed by a byte \<open>x\<close> that is neither a digit nor the
  ignore character: in any arithmetic the result is the value accumulated over the token,
  negated after a \<^verbatim>\<open>'-'\<close>, and the stream is left at \<open>x\<close>; \<open>x\<close> may be a second decimal
  point. In any arithmetic, a digit after the point multiplies the scale by 0.1 and adds
  the scale times the digit. In the IEEE 754 arithmetic of the program, with the value
  accumulated in \<^verbatim>\<open>double\<close> and returned as \<^verbatim>\<open>float\<close>: on \<^verbatim>\<open>"3.14,"\<close> the result is
  \<open>13170115 / 4194304\<close>, which is the \<^verbatim>\<open>float\<close> nearest to 3.14 (the \<^verbatim>\<open>float\<close> 3.14), and
  the stream is left at \<^verbatim>\<open>","\<close>; on \<^verbatim>\<open>"1.5.25"\<close> the result is 1.5 and the stream is left
  at \<^verbatim>\<open>".25"\<close>.
\<close>

theorem parseFloat_one_decimal_point:
  "(input s = junk @ sg @ ds1 @ 46 # ds2 @ x # rest
      \<and> (\<forall>y\<in>set junk. \<not> starts True y \<and> skipped lookahead y)
      \<and> (sg = [] \<or> sg = [45]) \<and> (\<forall>y\<in>set ds1. is_digit y) \<and> (\<forall>y\<in>set ds2. is_digit y)
      \<and> \<not> is_digit x \<and> x \<noteq> ignore \<and> ignore \<notin> set (sg @ ds1 @ 46 # ds2)
    \<longrightarrow> (\<exists>s'. parseFloat F lookahead ignore s
               = Some (narrow F (if sg = [] then accumulated F ignore (sg @ ds1 @ 46 # ds2)
                                 else dneg F (accumulated F ignore (sg @ ds1 @ 46 # ds2))), s')
             \<and> input s' = x # rest))
   \<and> (is_digit y \<and> y \<noteq> ignore
    \<longrightarrow> parseFloat_accum F ignore (uint y) (neg, True, v, f)
          = (neg, True,
             dadd F v (dmul F (dmul F f (dlit F (1 / 10))) (dlit F (of_int (uint y - 48)))),
             dmul F f (dlit F (1 / 10))))
   \<and> (\<exists>s'. parseFloat ieee754 SKIP_ALL NO_IGNORE_CHAR (stream_of ''3.14,'')
              = Some (Finite (13170115 / 4194304), s')
          \<and> input s' = bytes '','')
   \<and> binary32 (314 / 100) = Finite (13170115 / 4194304)
   \<and> (\<exists>s'. parseFloat ieee754 SKIP_ALL NO_IGNORE_CHAR (stream_of ''1.5.25'')
              = Some (Finite (3 / 2), s')
          \<and> input s' = bytes ''.25'')"
proof (intro conjI impI)
  assume a: "input s = junk @ sg @ ds1 @ 46 # ds2 @ x # rest
      \<and> (\<forall>y\<in>set junk. \<not> starts True y \<and> skipped lookahead y)
      \<and> (sg = [] \<or> sg = [45]) \<and> (\<forall>y\<in>set ds1. is_digit y) \<and> (\<forall>y\<in>set ds2. is_digit y)
      \<and> \<not> is_digit x \<and> x \<noteq> ignore \<and> ignore \<notin> set (sg @ ds1 @ 46 # ds2)"
  then show "\<exists>s'. parseFloat F lookahead ignore s
               = Some (narrow F (if sg = [] then accumulated F ignore (sg @ ds1 @ 46 # ds2)
                                 else dneg F (accumulated F ignore (sg @ ds1 @ 46 # ds2))), s')
             \<and> input s' = x # rest"
    using parseFloat_point_any[of s junk sg ds1 ds2 x rest lookahead ignore F] by blast
next
  assume "is_digit y \<and> y \<noteq> ignore"
  then show "parseFloat_accum F ignore (uint y) (neg, True, v, f)
          = (neg, True,
             dadd F v (dmul F (dmul F f (dlit F (1 / 10))) (dlit F (of_int (uint y - 48)))),
             dmul F f (dlit F (1 / 10)))"
    using not_digit_45 by (auto simp: parseFloat_accum_byte)
next
  show "\<exists>s'. parseFloat ieee754 SKIP_ALL NO_IGNORE_CHAR (stream_of ''3.14,'')
              = Some (Finite (13170115 / 4194304), s')
          \<and> input s' = bytes '',''"
    by (rule parseFloat_ieee_3_14)
next
  show "binary32 (314 / 100) = Finite (13170115 / 4194304)"
    by (rule binary32_nearest_3_14)
next
  show "\<exists>s'. parseFloat ieee754 SKIP_ALL NO_IGNORE_CHAR (stream_of ''1.5.25'')
              = Some (Finite (3 / 2), s')
          \<and> input s' = bytes ''.25''"
    by (rule parseFloat_ieee_1_5)
qed

theorem parseFloat_one_decimal_point_witness:
  "(\<exists>s'. parseFloat ieee754 SKIP_ALL NO_IGNORE_CHAR (stream_of ''x=-3.14.15'')
           = Some (Finite (- (13170115 / 4194304)), s')
        \<and> input s' = bytes ''.15'')
   \<and> parseFloat_accum ieee754 NO_IGNORE_CHAR (uint (52 :: byte))
       (False, True, Finite (6980579422424269 / 2251799813685248),
        Finite (3602879701896397 / 36028797018963968))
       = (False, True,
          ieee_add (Finite (6980579422424269 / 2251799813685248))
            (ieee_mul (ieee_mul (Finite (3602879701896397 / 36028797018963968)) (binary64 (1 / 10)))
               (binary64 4)),
          ieee_mul (Finite (3602879701896397 / 36028797018963968)) (binary64 (1 / 10)))
   \<and> parseFloat_accum ieee754 NO_IGNORE_CHAR (uint (52 :: byte))
       (False, True, Finite (6980579422424269 / 2251799813685248),
        Finite (3602879701896397 / 36028797018963968))
       = (False, True, Finite (7070651414971679 / 2251799813685248),
          Finite (1441151880758559 / 144115188075855872))"
proof -
  have h: "input (stream_of ''x=-3.14.15'')
        = bytes ''x='' @ [45] @ bytes ''3'' @ 46 # bytes ''14'' @ 46 # bytes ''15''
      \<and> (\<forall>y\<in>set (bytes ''x=''). \<not> starts True y \<and> skipped SKIP_ALL y)
      \<and> ([45 :: byte] = [] \<or> [45 :: byte] = [45]) \<and> (\<forall>y\<in>set (bytes ''3''). is_digit y)
      \<and> (\<forall>y\<in>set (bytes ''14''). is_digit y)
      \<and> \<not> is_digit 46 \<and> 46 \<noteq> NO_IGNORE_CHAR
      \<and> NO_IGNORE_CHAR \<notin> set ([45] @ bytes ''3'' @ 46 # bytes ''14'')"
    by (simp add: stream_of_def bytes_def starts_def skipped_def is_digit_def NO_IGNORE_CHAR_def)
  have g: "is_digit 52 \<and> 52 \<noteq> NO_IGNORE_CHAR" by (simp add: is_digit_def NO_IGNORE_CHAR_def)
  note t = parseFloat_one_decimal_point[of "stream_of ''x=-3.14.15''" "bytes ''x=''" "[45]"
      "bytes ''3''" "bytes ''14''" 46 "bytes ''15''" SKIP_ALL NO_IGNORE_CHAR ieee754 52 False
      "Finite (6980579422424269 / 2251799813685248)"
      "Finite (3602879701896397 / 36028797018963968)"]
  have c: "accumulated ieee754 NO_IGNORE_CHAR ([45] @ bytes ''3'' @ 46 # bytes ''14'')
           = Finite (7070651414971679 / 2251799813685248)"
    by (rule accumulated_ieee_3_14) simp
  have "\<exists>s'. parseFloat ieee754 SKIP_ALL NO_IGNORE_CHAR (stream_of ''x=-3.14.15'')
           = Some (narrow ieee754 (if [45 :: byte] = []
                      then accumulated ieee754 NO_IGNORE_CHAR ([45] @ bytes ''3'' @ 46 # bytes ''14'')
                      else dneg ieee754
                         (accumulated ieee754 NO_IGNORE_CHAR ([45] @ bytes ''3'' @ 46 # bytes ''14''))), s')
         \<and> input s' = 46 # bytes ''15''"
    using t h by blast
  then have a: "\<exists>s'. parseFloat ieee754 SKIP_ALL NO_IGNORE_CHAR (stream_of ''x=-3.14.15'')
           = Some (Finite (- (13170115 / 4194304)), s') \<and> input s' = bytes ''.15''"
    unfolding c by (simp add: bytes_def ieee754_sel binary32_uminus_3_14)
  have "parseFloat_accum ieee754 NO_IGNORE_CHAR (uint (52 :: byte))
       (False, True, Finite (6980579422424269 / 2251799813685248),
        Finite (3602879701896397 / 36028797018963968))
       = (False, True,
          dadd ieee754 (Finite (6980579422424269 / 2251799813685248))
            (dmul ieee754
               (dmul ieee754 (Finite (3602879701896397 / 36028797018963968))
                  (dlit ieee754 (1 / 10)))
               (dlit ieee754 (of_int (uint (52 :: byte) - 48)))),
          dmul ieee754 (Finite (3602879701896397 / 36028797018963968)) (dlit ieee754 (1 / 10)))"
    using t g by blast
  then have b: "parseFloat_accum ieee754 NO_IGNORE_CHAR (uint (52 :: byte))
       (False, True, Finite (6980579422424269 / 2251799813685248),
        Finite (3602879701896397 / 36028797018963968))
       = (False, True,
          ieee_add (Finite (6980579422424269 / 2251799813685248))
            (ieee_mul (ieee_mul (Finite (3602879701896397 / 36028797018963968)) (binary64 (1 / 10)))
               (binary64 4)),
          ieee_mul (Finite (3602879701896397 / 36028797018963968)) (binary64 (1 / 10)))"
    unfolding ieee754_sel by simp
  show ?thesis using a b ieee_digit_4_after_3_1[of False] by blast
qed

text \<open>
  C10. With the ignore character \<^verbatim>\<open>'-'\<close>, no byte sets the sign flag, in \<^verbatim>\<open>parseInt\<close>
  and in \<^verbatim>\<open>parseFloat\<close>; for every stream \<^verbatim>\<open>parseInt\<close> returns, and the result is the
  number of the digits it consumed, not negated; \<^verbatim>\<open>parseFloat\<close> returns, in any arithmetic,
  the value accumulated over the token it consumed, not negated (or the 0 of a failed
  lookahead), which in the IEEE 754 arithmetic of the program is a number not below zero
  or the positive infinity, never a negative number, the negative zero or a NaN;
  \<^verbatim>\<open>parseInt(SKIP_ALL, '-')\<close> on \<^verbatim>\<open>"-42"\<close> is 42.
\<close>

theorem ignore_minus_never_negates:
  "fst (parseInt_accum 45 c acc) = fst acc
   \<and> fst (parseFloat_accum F 45 c facc) = fst facc
   \<and> (\<exists>s' consumed. parseInt lookahead 45 s
          = Some (word_of_int (decimal_from 0 (filter is_digit consumed)) :: 'l::len word, s')
        \<and> input s = consumed @ input s')
   \<and> (\<exists>r s' junk tok. parseFloat F lookahead 45 s = Some (r, s')
        \<and> input s = junk @ tok @ input s'
        \<and> r = (if tok = [] then flit F 0 else narrow F (accumulated F 45 tok)))
   \<and> (\<exists>r s'. parseFloat ieee754 lookahead 45 s = Some (r, s')
        \<and> (r = Infinity False \<or> (\<exists>q. r = Finite q \<and> 0 \<le> q)))
   \<and> (\<exists>s'. parseInt SKIP_ALL 45 (stream_of ''-42'') = Some (42 :: 'l word, s')
          \<and> input s' = [])"
proof (intro conjI)
  show "fst (parseInt_accum 45 c acc) = fst acc"
    by (cases acc) (auto simp: parseInt_accum_def)
  show "fst (parseFloat_accum F 45 c facc) = fst facc"
    by (cases facc) (auto simp: parseFloat_accum_def Let_def)
  show "\<exists>s' consumed. parseInt lookahead 45 s
          = Some (word_of_int (decimal_from 0 (filter is_digit consumed)) :: 'l word, s')
        \<and> input s = consumed @ input s'"
    by (rule parseInt_ignore_minus_general)
  show "\<exists>r s' junk tok. parseFloat F lookahead 45 s = Some (r, s')
        \<and> input s = junk @ tok @ input s'
        \<and> r = (if tok = [] then flit F 0 else narrow F (accumulated F 45 tok))"
    by (rule parseFloat_ignore_minus_any)
  show "\<exists>r s'. parseFloat ieee754 lookahead 45 s = Some (r, s')
        \<and> (r = Infinity False \<or> (\<exists>q. r = Finite q \<and> 0 \<le> q))"
    by (rule parseFloat_ignore_minus_ieee)
  have "\<exists>s'. parseInt SKIP_ALL 45 (stream_of ''-42'')
           = Some (let (neg, v) = fst (int_run 45 (parseInt_accum 45 (uint (45 :: byte))
                                          (False, 0 :: 'l word)) (bytes ''42''))
                   in if neg then - v else v, s')
         \<and> input s' = snd (int_run 45 (parseInt_accum 45 (uint (45 :: byte))
                                          (False, 0 :: 'l word)) (bytes ''42''))"
    by (rule parseInt_started[where junk = "[]"])
       (simp_all add: stream_of_def bytes_def starts_def)
  then show "\<exists>s'. parseInt SKIP_ALL 45 (stream_of ''-42'') = Some (42 :: 'l word, s')
          \<and> input s' = []"
    by (simp add: bytes_def is_digit_def parseInt_accum_def)
qed

end
